theory Spec2Isabelle
  imports Main "HOL-Library.Char_ord" "HOL-Library.List_Lexorder"
begin

section \<open>Exceptions, strings and the cache directory\<close>

text \<open>
  The notebook is Python. An exception raised by the notebook's code or by a library call is
  a value of \<open>exn\<close>, and a computation that may raise returns \<open>exn + 'a\<close> with \<open>Inl\<close> for
  the exception. \<open>OSError\<close> stands for the whole class caught by
  \<^verbatim>\<open>except (OSError, IOError)\<close> (in Python 3 \<open>IOError\<close> is an alias of \<open>OSError\<close>);
  \<open>UnpicklingError\<close> for what \<^verbatim>\<open>pickle.load\<close> raises on bytes that are not a pickle
  (\<open>pickle.UnpicklingError\<close>, \<open>EOFError\<close>, ...), none of which derives from \<open>OSError\<close>.
\<close>

datatype exn =
    OSError string
  | UnpicklingError string
  | KeyError string
  | IndexError
  | ValueError
  | RemoteError string

fun is_OSError :: "exn \<Rightarrow> bool" where
  "is_OSError (OSError p) = True"
| "is_OSError e = False"

text \<open>
  \<^verbatim>\<open>s.replace(old, new)\<close>: every non-overlapping occurrence of \<open>old\<close>, scanning from the
  left, is replaced by \<open>new\<close>; with an empty \<open>old\<close>, \<open>new\<close> is put before every character and
  at the end.
\<close>

function replace :: "string \<Rightarrow> string \<Rightarrow> string \<Rightarrow> string" where
  "replace old new s =
     (if old = [] then concat (map (\<lambda>c. new @ [c]) s) @ new
      else if s = [] then []
      else if take (length old) s = old then new @ replace old new (drop (length old) s)
      else hd s # replace old new (tl s))"
  by pat_completeness auto
termination
  by (relation "measure (\<lambda>(old, new, s). length s)") auto

declare replace.simps [simp del]

text \<open>\<^verbatim>\<open>data_dir = 'data/'\<close>, the module-level cache directory.\<close>

definition data_dir :: string where
  "data_dir = ''data/''"

text \<open>\<^verbatim>\<open>'{}{}.pkl'.format(d, name)\<close>\<close>

definition format_pkl :: "string \<Rightarrow> string \<Rightarrow> string" where
  "format_pkl d name = d @ name @ ''.pkl''"

text \<open>The \<open>cache_path\<close> computed in the first line of each fetcher.\<close>

definition quandl_cache_path :: "string \<Rightarrow> string" where
  "quandl_cache_path quandl_id = format_pkl data_dir (replace ''/'' ''-'' quandl_id)"

definition json_cache_path :: "string \<Rightarrow> string" where
  "json_cache_path file_name = format_pkl data_dir file_name"

section \<open>The file system, the network and the two cached fetchers\<close>

text \<open>
  A file holds either the pickle of a table or bytes that \<^verbatim>\<open>pickle.load\<close> rejects. The
  world the fetchers act on is the files by path, which paths can be written, the requests
  sent to the data providers so far (oldest first) and the lines printed so far.
\<close>

datatype 'df cache_file = Pickled 'df | Garbage

record 'df world =
  files :: "string \<rightharpoonup> 'df cache_file"
  writable :: "string set"
  net_calls :: "string list"
  stdout :: "string list"

text \<open>\<^verbatim>\<open>open(path, 'rb')\<close> raises \<open>FileNotFoundError\<close>, an \<open>OSError\<close>, when there is no file.\<close>

definition open_rb :: "'df world \<Rightarrow> string \<Rightarrow> exn + 'df cache_file" where
  "open_rb w path = (case files w path of None \<Rightarrow> Inl (OSError path) | Some f \<Rightarrow> Inr f)"

definition pickle_load :: "string \<Rightarrow> 'df cache_file \<Rightarrow> exn + 'df" where
  "pickle_load path f = (case f of Pickled df \<Rightarrow> Inr df | Garbage \<Rightarrow> Inl (UnpicklingError path))"

text \<open>
  \<^verbatim>\<open>df.to_pickle(path)\<close> creates or overwrites the file, and raises an \<open>OSError\<close> when the
  path cannot be written.
\<close>

definition to_pickle :: "'df \<Rightarrow> string \<Rightarrow> 'df world \<Rightarrow> exn + 'df world" where
  "to_pickle df path w =
     (if path \<in> writable w then Inr (w\<lparr>files := (files w)(path \<mapsto> Pickled df)\<rparr>)
      else Inl (OSError path))"

definition print :: "string \<Rightarrow> 'df world \<Rightarrow> 'df world" where
  "print line w = w\<lparr>stdout := stdout w @ [line]\<rparr>"

text \<open>
  A remote retrieval (\<^verbatim>\<open>quandl.get(id, returns="pandas")\<close>, \<^verbatim>\<open>pd.read_json(url)\<close>): the
  provider's answer to a request is a parameter \<open>remote\<close>, which yields the parsed table or
  the exception of the download or of the parse; the request is recorded.
\<close>

definition request :: "(string \<Rightarrow> exn + 'df) \<Rightarrow> string \<Rightarrow> 'df world \<Rightarrow> (exn + 'df) \<times> 'df world" where
  "request remote ident w = (remote ident, w\<lparr>net_calls := net_calls w @ [ident]\<rparr>)"

text \<open>
  The \<^verbatim>\<open>try\<close> block of both fetchers up to the \<^verbatim>\<open>print\<close>:
  \<^verbatim>\<open>f = open(cache_path, 'rb'); df = pickle.load(f)\<close>.
\<close>

definition load_cache :: "'df world \<Rightarrow> string \<Rightarrow> exn + 'df" where
  "load_cache w cache_path =
     (case open_rb w cache_path of Inl e \<Rightarrow> Inl e | Inr f \<Rightarrow> pickle_load cache_path f)"

text \<open>
  \<^verbatim>\<open>get_quandl_data(quandl_id)\<close>. The handler catches \<open>OSError\<close> only; any other exception of
  the \<^verbatim>\<open>try\<close> block, and every exception raised inside the handler, leaves the function.
\<close>

definition get_quandl_data ::
  "(string \<Rightarrow> exn + 'df) \<Rightarrow> string \<Rightarrow> 'df world \<Rightarrow> (exn + 'df) \<times> 'df world" where
  "get_quandl_data quandl_get quandl_id w =
     (let cache_path = quandl_cache_path quandl_id in
      case load_cache w cache_path of
        Inr df \<Rightarrow> (Inr df, print (''Loaded '' @ quandl_id @ '' from cache'') w)
      | Inl e \<Rightarrow>
          if is_OSError e then
            (let w1 = print (''Downloading '' @ quandl_id @ '' from Quandl'') w;
                 (r, w2) = request quandl_get quandl_id w1 in
             case r of
               Inl e1 \<Rightarrow> (Inl e1, w2)
             | Inr df \<Rightarrow>
                 (case to_pickle df cache_path w2 of
                    Inl e2 \<Rightarrow> (Inl e2, w2)
                  | Inr w3 \<Rightarrow>
                      (Inr df, print (''Cached '' @ quandl_id @ '' at '' @ cache_path) w3)))
          else (Inl e, w))"

text \<open>\<^verbatim>\<open>get_json_data(json_url, file_name)\<close>: the same shape, keyed by \<open>file_name\<close> as it is.\<close>

definition get_json_data ::
  "(string \<Rightarrow> exn + 'df) \<Rightarrow> string \<Rightarrow> string \<Rightarrow> 'df world \<Rightarrow> (exn + 'df) \<times> 'df world" where
  "get_json_data read_json json_url file_name w =
     (let cache_path = json_cache_path file_name in
      case load_cache w cache_path of
        Inr df \<Rightarrow> (Inr df, print (''Loaded '' @ file_name @ '' from cache'') w)
      | Inl e \<Rightarrow>
          if is_OSError e then
            (let w1 = print (''Downloading '' @ json_url) w;
                 (r, w2) = request read_json json_url w1 in
             case r of
               Inl e1 \<Rightarrow> (Inl e1, w2)
             | Inr df \<Rightarrow>
                 (case to_pickle df cache_path w2 of
                    Inl e2 \<Rightarrow> (Inl e2, w2)
                  | Inr w3 \<Rightarrow> (Inr df, print (''Cached response at '' @ cache_path) w3)))
          else (Inl e, w))"

section \<open>Tables\<close>

text \<open>
  A pandas \<open>Series\<close> is its index and its values, position by position; a cell is
  \<open>None\<close> where pandas has \<open>NaN\<close> (unset). A \<open>DataFrame\<close> is a row index and its columns in
  order, each column with one cell per row. Dates are the integers of a time stamp. The
  type of a present value is a parameter: the claims are about which cells are set, never
  about floating-point values.
\<close>

type_synonym date = int

type_synonym 'v series = "(date \<times> 'v option) list"

record 'v dataframe =
  df_index :: "date list"
  df_columns :: "(string \<times> 'v option list) list"

definition wf_dataframe :: "'v dataframe \<Rightarrow> bool" where
  "wf_dataframe df = list_all (\<lambda>c. length (snd c) = length (df_index df)) (df_columns df)"

text \<open>\<^verbatim>\<open>df[col]\<close>: the column as a series over the frame's index, \<open>KeyError\<close> without it.\<close>

definition getitem :: "'v dataframe \<Rightarrow> string \<Rightarrow> exn + 'v series" where
  "getitem df col =
     (case map_of (df_columns df) col of
        None \<Rightarrow> Inl (KeyError col)
      | Some vs \<Rightarrow> Inr (zip (df_index df) vs))"

text \<open>\<^verbatim>\<open>xs[i]\<close> for the indices of a \<^verbatim>\<open>range\<close>, which are never negative.\<close>

definition list_get :: "'a list \<Rightarrow> nat \<Rightarrow> exn + 'a" where
  "list_get xs i = (if i < length xs then Inr (xs ! i) else Inl IndexError)"

text \<open>
  \<^verbatim>\<open>d[k] = v\<close> on a Python \<open>dict\<close>, which keeps insertion order: a key already there keeps
  its place and takes the new value, a new key goes last.
\<close>

fun dict_set :: "('k \<times> 'a) list \<Rightarrow> 'k \<Rightarrow> 'a \<Rightarrow> ('k \<times> 'a) list" where
  "dict_set [] k v = [(k, v)]"
| "dict_set (p # d) k v = (if fst p = k then (k, v) # d else p # dict_set d k v)"

text \<open>
  The index of \<^verbatim>\<open>pd.DataFrame(dict_of_series)\<close>: the common index when all series have the
  same one, else the union of their indexes, sorted and without repetition.
\<close>

definition union_indexes :: "date list list \<Rightarrow> date list" where
  "union_indexes idxs =
     (case idxs of
        [] \<Rightarrow> []
      | i # rest \<Rightarrow> if list_all (\<lambda>j. j = i) rest then i else sort (remdups (concat idxs)))"

text \<open>
  \<^verbatim>\<open>s.reindex(target)\<close>: nothing to do when the series already has that index; otherwise a
  series with a repeated date raises \<open>ValueError\<close> (cannot reindex on an axis with duplicate
  labels), and a series with unique dates gives, per target date, its cell at that date or
  \<open>NaN\<close> without one.
\<close>

definition reindex :: "'v series \<Rightarrow> date list \<Rightarrow> exn + 'v series" where
  "reindex s target =
     (if map fst s = target then Inr s
      else if \<not> distinct (map fst s) then Inl ValueError
      else Inr (map (\<lambda>d. (d, case map_of s d of None \<Rightarrow> None | Some c \<Rightarrow> c)) target))"

fun homogenize ::
  "date list \<Rightarrow> (string \<times> 'v series) list \<Rightarrow> exn + (string \<times> 'v option list) list" where
  "homogenize idx [] = Inr []"
| "homogenize idx (p # rest) =
     (case reindex (snd p) idx of
        Inl e \<Rightarrow> Inl e
      | Inr s \<Rightarrow>
          (case homogenize idx rest of
             Inl e \<Rightarrow> Inl e
           | Inr cols \<Rightarrow> Inr ((fst p, map snd s) # cols)))"

text \<open>
  The order in which \<^verbatim>\<open>pd.DataFrame\<close> takes the keys of a plain \<open>dict\<close> depends on the
  pandas the notebook runs on, so it is a parameter of the model. From version 0.23 on
  (with the insertion-ordered \<open>dict\<close> of Python 3.6 and later) pandas keeps the order of
  the dictionary; earlier versions, current at the notebook's recorded run of December
  2017, sort the keys. Strings are ordered as Python orders them, character by character.
\<close>

datatype key_order = Insertion_order | Sorted_keys

definition dict_items :: "key_order \<Rightarrow> (string \<times> 'a) list \<Rightarrow> (string \<times> 'a) list" where
  "dict_items order d = (case order of Insertion_order \<Rightarrow> d | Sorted_keys \<Rightarrow> sort_key fst d)"

text \<open>
  \<^verbatim>\<open>pd.DataFrame(series_dict)\<close>: one column per key, the keys taken in the order \<open>order\<close>,
  every series aligned to the union of the indexes.
\<close>

definition DataFrame :: "key_order \<Rightarrow> (string \<times> 'v series) list \<Rightarrow> exn + 'v dataframe" where
  "DataFrame order series_dict =
     (let items = dict_items order series_dict;
          idx = union_indexes (map (\<lambda>p. map fst (snd p)) items) in
      case homogenize idx items of
        Inl e \<Rightarrow> Inl e
      | Inr cols \<Rightarrow> Inr \<lparr>df_index = idx, df_columns = cols\<rparr>)"

section \<open>The series merger\<close>

text \<open>
  The loop of \<^verbatim>\<open>merge_dfs_on_column\<close> over \<^verbatim>\<open>range(len(dataframes))\<close>. In
  \<^verbatim>\<open>series_dict[labels[index]] = dataframes[index][col]\<close> Python evaluates the right-hand
  side first, then \<^verbatim>\<open>labels[index]\<close>.
\<close>

fun merge_loop ::
  "'v dataframe list \<Rightarrow> string list \<Rightarrow> string \<Rightarrow> nat list \<Rightarrow> (string \<times> 'v series) list
    \<Rightarrow> exn + (string \<times> 'v series) list" where
  "merge_loop dataframes labels col [] series_dict = Inr series_dict"
| "merge_loop dataframes labels col (index # rest) series_dict =
     (case list_get dataframes index of
        Inl e \<Rightarrow> Inl e
      | Inr df \<Rightarrow>
          (case getitem df col of
             Inl e \<Rightarrow> Inl e
           | Inr s \<Rightarrow>
               (case list_get labels index of
                  Inl e \<Rightarrow> Inl e
                | Inr label \<Rightarrow>
                    merge_loop dataframes labels col rest (dict_set series_dict label s))))"

text \<open>
  \<^verbatim>\<open>merge_dfs_on_column(dataframes, labels, col)\<close>; \<open>order\<close> is the key order of the pandas
  it runs on.
\<close>

definition merge_dfs_on_column ::
  "key_order \<Rightarrow> 'v dataframe list \<Rightarrow> string list \<Rightarrow> string \<Rightarrow> exn + 'v dataframe" where
  "merge_dfs_on_column order dataframes labels col =
     (case merge_loop dataframes labels col [0..<length dataframes] [] of
        Inl e \<Rightarrow> Inl e
      | Inr series_dict \<Rightarrow> DataFrame order series_dict)"

section \<open>The conversion to US dollars\<close>

text \<open>
  The product of two cells is \<open>NaN\<close> when either is; the product of two present values is
  the parameter \<open>mul\<close>, which may itself give \<open>NaN\<close>, as a floating-point product can.
\<close>

definition cell_mul :: "('v \<Rightarrow> 'v \<Rightarrow> 'v option) \<Rightarrow> 'v option \<Rightarrow> 'v option \<Rightarrow> 'v option" where
  "cell_mul mul a b =
     (case a of None \<Rightarrow> None | Some x \<Rightarrow> (case b of None \<Rightarrow> None | Some y \<Rightarrow> mul x y))"

text \<open>The cells of a series at a date, and a single \<open>NaN\<close> when it has none there.\<close>

definition occurrences :: "'v series \<Rightarrow> date \<Rightarrow> 'v option list" where
  "occurrences s d =
     (case map snd (filter (\<lambda>p. fst p = d) s) of [] \<Rightarrow> [None] | v # vs \<Rightarrow> v # vs)"

text \<open>
  \<^verbatim>\<open>a * b\<close> on two series: position by position when the indexes are equal; otherwise the
  series are aligned by an outer join on the date, sorted by date, and a date that one
  side lacks meets \<open>NaN\<close> on that side.
\<close>

definition series_mul ::
  "('v \<Rightarrow> 'v \<Rightarrow> 'v option) \<Rightarrow> 'v series \<Rightarrow> 'v series \<Rightarrow> 'v series" where
  "series_mul mul a b =
     (if map fst a = map fst b then
        map (\<lambda>(p, q). (fst p, cell_mul mul (snd p) (snd q))) (zip a b)
      else
        concat (map (\<lambda>d. concat (map (\<lambda>x. map (\<lambda>y. (d, cell_mul mul x y)) (occurrences b d))
                                      (occurrences a d)))
                    (sort (remdups (map fst a @ map fst b)))))"

text \<open>
  \<^verbatim>\<open>df[col] = s\<close> with a series: a frame without rows takes the index of a non-empty
  series (its other columns become \<open>NaN\<close>); otherwise the series is reindexed to the frame's
  rows. The column replaces one of that name or is added last.
\<close>

definition setitem :: "'v dataframe \<Rightarrow> string \<Rightarrow> 'v series \<Rightarrow> exn + 'v dataframe" where
  "setitem df col s =
     (if df_index df = [] \<and> s \<noteq> [] then
        Inr \<lparr>df_index = map fst s,
             df_columns = dict_set (map (\<lambda>c. (fst c, replicate (length s) None)) (df_columns df))
                            col (map snd s)\<rparr>
      else
        case reindex s (df_index df) of
          Inl e \<Rightarrow> Inl e
        | Inr s' \<Rightarrow> Inr (df\<lparr>df_columns := dict_set (df_columns df) col (map snd s')\<rparr>))"

text \<open>
  The body of the conversion loop for one frame:
  \<^verbatim>\<open>df['price_usd'] = df['weightedAverage'] * btc_usd_datasets['avg_btc_price_usd']\<close>
\<close>

definition price_usd_step ::
  "('v \<Rightarrow> 'v \<Rightarrow> 'v option) \<Rightarrow> 'v dataframe \<Rightarrow> 'v dataframe \<Rightarrow> exn + 'v dataframe" where
  "price_usd_step mul btc_usd_datasets df =
     (case getitem df ''weightedAverage'' of
        Inl e \<Rightarrow> Inl e
      | Inr weighted \<Rightarrow>
          (case getitem btc_usd_datasets ''avg_btc_price_usd'' of
             Inl e \<Rightarrow> Inl e
           | Inr avg \<Rightarrow> setitem df ''price_usd'' (series_mul mul weighted avg)))"

text \<open>
  \<^verbatim>\<open>for altcoin in altcoin_data.keys(): ...\<close>: the dictionary of frames is the state; each
  key holds a frame of its own. An exception stops the loop and keeps the frames already
  converted.
\<close>

fun price_usd_loop ::
  "('v \<Rightarrow> 'v \<Rightarrow> 'v option) \<Rightarrow> 'v dataframe \<Rightarrow> string list \<Rightarrow> (string \<times> 'v dataframe) list
    \<Rightarrow> exn option \<times> (string \<times> 'v dataframe) list" where
  "price_usd_loop mul btc_usd_datasets [] altcoin_data = (None, altcoin_data)"
| "price_usd_loop mul btc_usd_datasets (altcoin # keys) altcoin_data =
     (case map_of altcoin_data altcoin of
        None \<Rightarrow> (Some (KeyError altcoin), altcoin_data)
      | Some df \<Rightarrow>
          (case price_usd_step mul btc_usd_datasets df of
             Inl e \<Rightarrow> (Some e, altcoin_data)
           | Inr df' \<Rightarrow>
               price_usd_loop mul btc_usd_datasets keys (dict_set altcoin_data altcoin df')))"

definition price_usd_all ::
  "('v \<Rightarrow> 'v \<Rightarrow> 'v option) \<Rightarrow> 'v dataframe \<Rightarrow> (string \<times> 'v dataframe) list
    \<Rightarrow> exn option \<times> (string \<times> 'v dataframe) list" where
  "price_usd_all mul btc_usd_datasets altcoin_data =
     price_usd_loop mul btc_usd_datasets (map fst altcoin_data) altcoin_data"

section \<open>Sample worlds and tables\<close>

text \<open>
  Two providers for concrete runs: one that answers every request with the same table, one
  that fails every request with the same exception.
\<close>

definition provider_up :: "'df \<Rightarrow> string \<Rightarrow> exn + 'df" where
  "provider_up df ident = Inr df"

definition provider_down :: "exn \<Rightarrow> string \<Rightarrow> exn + 'df" where
  "provider_down e ident = Inl e"

text \<open>A world for concrete runs: no file yet, every path writable, nothing sent or printed.\<close>

definition empty_cache :: "'df world" where
  "empty_cache = \<lparr>files = Map.empty, writable = UNIV, net_calls = [], stdout = []\<rparr>"

text \<open>
  A world whose cache holds, for \<^verbatim>\<open>BCHARTS/KRAKENUSD\<close> and for \<^verbatim>\<open>BTC_ETH\<close>, a file that is
  not a pickle.
\<close>

definition corrupt_cache :: "'df world" where
  "corrupt_cache = empty_cache\<lparr>files := [''data/BCHARTS-KRAKENUSD.pkl'' \<mapsto> Garbage,
                                           ''data/BTC_ETH.pkl'' \<mapsto> Garbage]\<rparr>"

text \<open>
  Small frames for concrete runs: two exchanges with overlapping dates, a frame without
  the price column, an altcoin frame priced in bitcoin, and a frame of bitcoin prices that
  has no row for the altcoin's last date.
\<close>

definition kraken :: "int dataframe" where
  "kraken = \<lparr>df_index = [1, 2],
             df_columns = [(''Open'', [Some 9, Some 19]),
                           (''Weighted Price'', [Some 10, Some 20])]\<rparr>"

definition bitstamp :: "int dataframe" where
  "bitstamp = \<lparr>df_index = [2, 3], df_columns = [(''Weighted Price'', [Some 21, Some 31])]\<rparr>"

definition no_price :: "int dataframe" where
  "no_price = \<lparr>df_index = [1], df_columns = [(''Open'', [Some 5])]\<rparr>"

definition eth_btc :: "int dataframe" where
  "eth_btc = \<lparr>df_index = [1, 2, 4], df_columns = [(''weightedAverage'', [Some 2, Some 3, Some 5])]\<rparr>"

definition btc_usd :: "int dataframe" where
  "btc_usd = \<lparr>df_index = [1, 2, 3],
              df_columns = [(''avg_btc_price_usd'', [Some 100, None, Some 300])]\<rparr>"

text \<open>On the integers of the samples every product is present.\<close>

definition int_mul :: "int \<Rightarrow> int \<Rightarrow> int option" where
  "int_mul x y = Some (x * y)"

section \<open>Properties of the cached fetchers\<close>

text \<open>Replacing one character by another keeps every other character in place.\<close>

lemma replace_char:
  "replace [a] [b] s = map (\<lambda>c. if c = a then b else c) s"
proof (induction s)
  case Nil
  show ?case by (simp add: replace.simps)
next
  case (Cons c s)
  show ?case
    by (subst replace.simps) (simp add: Cons.IH)
qed

text \<open>Each fetcher on a cache miss, on a cache hit and on a file that is not a pickle.\<close>

lemma get_quandl_data_miss:
  assumes "files w (quandl_cache_path q) = None"
  shows "get_quandl_data remote q w =
    (let w2 = (print (''Downloading '' @ q @ '' from Quandl'') w)\<lparr>net_calls := net_calls w @ [q]\<rparr> in
     case remote q of Inl e \<Rightarrow> (Inl e, w2)
     | Inr df \<Rightarrow> (case to_pickle df (quandl_cache_path q) w2 of Inl e2 \<Rightarrow> (Inl e2, w2)
         | Inr w3 \<Rightarrow> (Inr df, print (''Cached '' @ q @ '' at '' @ quandl_cache_path q) w3)))"
  using assms
  by (simp add: get_quandl_data_def load_cache_def open_rb_def request_def print_def Let_def
      split: sum.splits)

lemma get_quandl_data_hit:
  assumes "files w (quandl_cache_path q) = Some (Pickled df)"
  shows "get_quandl_data remote q w = (Inr df, print (''Loaded '' @ q @ '' from cache'') w)"
  using assms
  by (simp add: get_quandl_data_def load_cache_def open_rb_def pickle_load_def)

lemma get_quandl_data_garbage:
  assumes "files w (quandl_cache_path q) = Some Garbage"
  shows "get_quandl_data remote q w = (Inl (UnpicklingError (quandl_cache_path q)), w)"
  using assms
  by (simp add: get_quandl_data_def load_cache_def open_rb_def pickle_load_def)

lemma get_json_data_miss:
  assumes "files w (json_cache_path n) = None"
  shows "get_json_data remote u n w =
    (let w2 = (print (''Downloading '' @ u) w)\<lparr>net_calls := net_calls w @ [u]\<rparr> in
     case remote u of Inl e \<Rightarrow> (Inl e, w2)
     | Inr df \<Rightarrow> (case to_pickle df (json_cache_path n) w2 of Inl e2 \<Rightarrow> (Inl e2, w2)
         | Inr w3 \<Rightarrow> (Inr df, print (''Cached response at '' @ json_cache_path n) w3)))"
  using assms
  by (simp add: get_json_data_def load_cache_def open_rb_def request_def print_def Let_def
      split: sum.splits)

lemma get_json_data_hit:
  assumes "files w (json_cache_path n) = Some (Pickled df)"
  shows "get_json_data remote u n w = (Inr df, print (''Loaded '' @ n @ '' from cache'') w)"
  using assms
  by (simp add: get_json_data_def load_cache_def open_rb_def pickle_load_def)

lemma get_json_data_garbage:
  assumes "files w (json_cache_path n) = Some Garbage"
  shows "get_json_data remote u n w = (Inl (UnpicklingError (json_cache_path n)), w)"
  using assms
  by (simp add: get_json_data_def load_cache_def open_rb_def pickle_load_def)

text \<open>
  C1 (fetch idempotence). Start from a world where the cache file of the identifier is
  absent and its path writable, and let the provider answer the first request with the
  table \<open>df\<close>. Two calls of the fetcher with that identifier then send exactly one request:
  the first call returns \<open>df\<close> and stores its pickle under the cache path; the second call,
  whatever the provider would answer by then, returns the same table, sends nothing and
  leaves the files as they are. This holds for \<open>get_quandl_data\<close> and for \<open>get_json_data\<close>.
\<close>

theorem fetch_twice_one_network_call:
  "(files w (quandl_cache_path quandl_id) = None \<and> quandl_cache_path quandl_id \<in> writable w
      \<and> quandl_get quandl_id = Inr df
    \<longrightarrow> (let first = get_quandl_data quandl_get quandl_id w;
             second = get_quandl_data quandl_get2 quandl_id (snd first)
         in fst first = Inr df
            \<and> files (snd first) = (files w)(quandl_cache_path quandl_id \<mapsto> Pickled df)
            \<and> net_calls (snd first) = net_calls w @ [quandl_id]
            \<and> fst second = fst first
            \<and> files (snd second) = files (snd first)
            \<and> net_calls (snd second) = net_calls w @ [quandl_id]))
   \<and> (files w (json_cache_path file_name) = None \<and> json_cache_path file_name \<in> writable w
      \<and> read_json json_url = Inr df
    \<longrightarrow> (let first = get_json_data read_json json_url file_name w;
             second = get_json_data read_json2 json_url file_name (snd first)
         in fst first = Inr df
            \<and> files (snd first) = (files w)(json_cache_path file_name \<mapsto> Pickled df)
            \<and> net_calls (snd first) = net_calls w @ [json_url]
            \<and> fst second = fst first
            \<and> files (snd second) = files (snd first)
            \<and> net_calls (snd second) = net_calls w @ [json_url]))"
proof (intro conjI impI)
  assume h: "files w (quandl_cache_path quandl_id) = None \<and> quandl_cache_path quandl_id \<in> writable w
      \<and> quandl_get quandl_id = Inr df"
  define w1 where "w1 = snd (get_quandl_data quandl_get quandl_id w)"
  have first: "get_quandl_data quandl_get quandl_id w = (Inr df, w1)"
    and f1: "files w1 = (files w)(quandl_cache_path quandl_id \<mapsto> Pickled df)"
    and n1: "net_calls w1 = net_calls w @ [quandl_id]"
    using h by (simp_all add: w1_def get_quandl_data_miss to_pickle_def print_def)
  have "files w1 (quandl_cache_path quandl_id) = Some (Pickled df)"
    by (simp add: f1)
  then have second: "get_quandl_data quandl_get2 quandl_id w1
      = (Inr df, print (''Loaded '' @ quandl_id @ '' from cache'') w1)"
    by (rule get_quandl_data_hit)
  show "let first = get_quandl_data quandl_get quandl_id w;
            second = get_quandl_data quandl_get2 quandl_id (snd first)
        in fst first = Inr df
            \<and> files (snd first) = (files w)(quandl_cache_path quandl_id \<mapsto> Pickled df)
            \<and> net_calls (snd first) = net_calls w @ [quandl_id]
            \<and> fst second = fst first
            \<and> files (snd second) = files (snd first)
            \<and> net_calls (snd second) = net_calls w @ [quandl_id]"
    by (simp add: first second f1 n1 print_def)
next
  assume h: "files w (json_cache_path file_name) = None \<and> json_cache_path file_name \<in> writable w
      \<and> read_json json_url = Inr df"
  define w1 where "w1 = snd (get_json_data read_json json_url file_name w)"
  have first: "get_json_data read_json json_url file_name w = (Inr df, w1)"
    and f1: "files w1 = (files w)(json_cache_path file_name \<mapsto> Pickled df)"
    and n1: "net_calls w1 = net_calls w @ [json_url]"
    using h by (simp_all add: w1_def get_json_data_miss to_pickle_def print_def)
  have "files w1 (json_cache_path file_name) = Some (Pickled df)"
    by (simp add: f1)
  then have second: "get_json_data read_json2 json_url file_name w1
      = (Inr df, print (''Loaded '' @ file_name @ '' from cache'') w1)"
    by (rule get_json_data_hit)
  show "let first = get_json_data read_json json_url file_name w;
            second = get_json_data read_json2 json_url file_name (snd first)
        in fst first = Inr df
            \<and> files (snd first) = (files w)(json_cache_path file_name \<mapsto> Pickled df)
            \<and> net_calls (snd first) = net_calls w @ [json_url]
            \<and> fst second = fst first
            \<and> files (snd second) = files (snd first)
            \<and> net_calls (snd second) = net_calls w @ [json_url]"
    by (simp add: first second f1 n1 print_def)
qed

text \<open>
  The hypotheses hold in the empty cache: the Kraken data set and the BTC_ETH pair are each
  fetched twice, the second time with the provider offline.
\<close>

theorem fetch_twice_one_network_call_witness:
  "(files (empty_cache :: nat world) (quandl_cache_path ''BCHARTS/KRAKENUSD'') = None
    \<and> quandl_cache_path ''BCHARTS/KRAKENUSD'' \<in> writable (empty_cache :: nat world)
    \<and> provider_up (7::nat) ''BCHARTS/KRAKENUSD'' = Inr 7)
   \<and> (let first = get_quandl_data (provider_up (7::nat)) ''BCHARTS/KRAKENUSD'' empty_cache;
          second = get_quandl_data (provider_down (RemoteError ''offline'')) ''BCHARTS/KRAKENUSD''
                     (snd first)
      in fst first = Inr 7 \<and> fst second = Inr 7
         \<and> files (snd second) ''data/BCHARTS-KRAKENUSD.pkl'' = Some (Pickled 7)
         \<and> net_calls (snd second) = [''BCHARTS/KRAKENUSD''])
   \<and> (files (empty_cache :: nat world) (json_cache_path ''BTC_ETH'') = None
    \<and> json_cache_path ''BTC_ETH'' \<in> writable (empty_cache :: nat world)
    \<and> provider_up (7::nat) ''https://poloniex.com/public'' = Inr 7)
   \<and> (let first = get_json_data (provider_up (7::nat)) ''https://poloniex.com/public'' ''BTC_ETH''
                    empty_cache;
          second = get_json_data (provider_down (RemoteError ''offline''))
                     ''https://poloniex.com/public'' ''BTC_ETH'' (snd first)
      in fst first = Inr 7 \<and> fst second = Inr 7
         \<and> files (snd second) ''data/BTC_ETH.pkl'' = Some (Pickled 7)
         \<and> net_calls (snd second) = [''https://poloniex.com/public''])"
proof -
  note t = fetch_twice_one_network_call [of "empty_cache :: nat world" "''BCHARTS/KRAKENUSD''"
      "provider_up 7" 7 "provider_down (RemoteError ''offline'')" "''BTC_ETH''" "provider_up 7"
      "''https://poloniex.com/public''" "provider_down (RemoteError ''offline'')"]
  have hq: "files (empty_cache :: nat world) (quandl_cache_path ''BCHARTS/KRAKENUSD'') = None
      \<and> quandl_cache_path ''BCHARTS/KRAKENUSD'' \<in> writable (empty_cache :: nat world)
      \<and> provider_up (7::nat) ''BCHARTS/KRAKENUSD'' = Inr 7"
    by (simp add: empty_cache_def provider_up_def)
  have hj: "files (empty_cache :: nat world) (json_cache_path ''BTC_ETH'') = None
      \<and> json_cache_path ''BTC_ETH'' \<in> writable (empty_cache :: nat world)
      \<and> provider_up (7::nat) ''https://poloniex.com/public'' = Inr 7"
    by (simp add: empty_cache_def provider_up_def)
  have pq: "quandl_cache_path ''BCHARTS/KRAKENUSD'' = ''data/BCHARTS-KRAKENUSD.pkl''"
    by (simp add: quandl_cache_path_def format_pkl_def data_dir_def replace_char)
  have pj: "json_cache_path ''BTC_ETH'' = ''data/BTC_ETH.pkl''"
    by (simp add: json_cache_path_def format_pkl_def data_dir_def)
  have cq: "let first = get_quandl_data (provider_up (7::nat)) ''BCHARTS/KRAKENUSD'' empty_cache;
          second = get_quandl_data (provider_down (RemoteError ''offline'')) ''BCHARTS/KRAKENUSD''
                     (snd first)
      in fst first = Inr 7 \<and> fst second = Inr 7
         \<and> files (snd second) ''data/BCHARTS-KRAKENUSD.pkl'' = Some (Pickled 7)
         \<and> net_calls (snd second) = [''BCHARTS/KRAKENUSD'']"
    using mp [OF conjunct1 [OF t] hq] by (simp add: Let_def pq empty_cache_def)
  have cj: "let first = get_json_data (provider_up (7::nat)) ''https://poloniex.com/public'' ''BTC_ETH''
                    empty_cache;
          second = get_json_data (provider_down (RemoteError ''offline''))
                     ''https://poloniex.com/public'' ''BTC_ETH'' (snd first)
      in fst first = Inr 7 \<and> fst second = Inr 7
         \<and> files (snd second) ''data/BTC_ETH.pkl'' = Some (Pickled 7)
         \<and> net_calls (snd second) = [''https://poloniex.com/public'']"
    using mp [OF conjunct2 [OF t] hj] by (simp add: Let_def pj empty_cache_def)
  show ?thesis
    by (rule conjI [OF hq conjI [OF cq conjI [OF hj cj]]])
qed

lemma empty_cache_simps:
  "files empty_cache = Map.empty" "writable empty_cache = UNIV"
  "net_calls empty_cache = []" "stdout empty_cache = []"
  by (simp_all add: empty_cache_def)

text \<open>
  C10 (a failed download writes nothing). On a cache miss, when the remote retrieval raises
  \<open>e\<close> (the download or the parse failed), the fetcher raises \<open>e\<close> and the files of the
  cache are what they were: \<open>to_pickle\<close> is not reached. This holds for \<open>get_quandl_data\<close>
  and for \<open>get_json_data\<close>.
\<close>

theorem failed_download_writes_nothing:
  "(files w (quandl_cache_path quandl_id) = None \<and> quandl_get quandl_id = Inl e
    \<longrightarrow> fst (get_quandl_data quandl_get quandl_id w) = Inl e
        \<and> files (snd (get_quandl_data quandl_get quandl_id w)) = files w)
   \<and> (files w (json_cache_path file_name) = None \<and> read_json json_url = Inl e
    \<longrightarrow> fst (get_json_data read_json json_url file_name w) = Inl e
        \<and> files (snd (get_json_data read_json json_url file_name w)) = files w)"
  by (simp add: get_quandl_data_miss get_json_data_miss print_def)

text \<open>With the provider offline and nothing cached, both fetchers raise and store nothing.\<close>

theorem failed_download_writes_nothing_witness:
  "(files (empty_cache :: nat world) (quandl_cache_path ''BCHARTS/KRAKENUSD'') = None
    \<and> provider_down (RemoteError ''offline'') ''BCHARTS/KRAKENUSD''
        = (Inl (RemoteError ''offline'') :: exn + nat))
   \<and> (fst (get_quandl_data (provider_down (RemoteError ''offline'')) ''BCHARTS/KRAKENUSD''
              (empty_cache :: nat world)) = Inl (RemoteError ''offline'')
    \<and> files (snd (get_quandl_data (provider_down (RemoteError ''offline'')) ''BCHARTS/KRAKENUSD''
                    (empty_cache :: nat world))) = files (empty_cache :: nat world))
   \<and> (files (empty_cache :: nat world) (json_cache_path ''BTC_ETH'') = None
    \<and> provider_down (RemoteError ''offline'') ''https://poloniex.com/public''
        = (Inl (RemoteError ''offline'') :: exn + nat))
   \<and> (fst (get_json_data (provider_down (RemoteError ''offline'')) ''https://poloniex.com/public''
              ''BTC_ETH'' (empty_cache :: nat world)) = Inl (RemoteError ''offline'')
    \<and> files (snd (get_json_data (provider_down (RemoteError ''offline''))
                    ''https://poloniex.com/public'' ''BTC_ETH'' (empty_cache :: nat world)))
        = files (empty_cache :: nat world))"
proof -
  note t = failed_download_writes_nothing [of "empty_cache :: nat world" "''BCHARTS/KRAKENUSD''"
      "provider_down (RemoteError ''offline'')" "RemoteError ''offline''" "''BTC_ETH''"
      "provider_down (RemoteError ''offline'')" "''https://poloniex.com/public''"]
  have hq: "files (empty_cache :: nat world) (quandl_cache_path ''BCHARTS/KRAKENUSD'') = None
    \<and> provider_down (RemoteError ''offline'') ''BCHARTS/KRAKENUSD''
        = (Inl (RemoteError ''offline'') :: exn + nat)"
    by (simp add: empty_cache_def provider_down_def)
  have hj: "files (empty_cache :: nat world) (json_cache_path ''BTC_ETH'') = None
    \<and> provider_down (RemoteError ''offline'') ''https://poloniex.com/public''
        = (Inl (RemoteError ''offline'') :: exn + nat)"
    by (simp add: empty_cache_def provider_down_def)
  show ?thesis
    by (rule conjI [OF hq conjI [OF mp [OF conjunct1 [OF t] hq]
          conjI [OF hj mp [OF conjunct2 [OF t] hj]]]])
qed

text \<open>
  C3 (a cache file that does not deserialise). As stated the claim fails: the handler of both
  fetchers catches \<open>OSError\<close> only, and the exception of \<^verbatim>\<open>pickle.load\<close> is not one. With a
  corrupt file under the cache path and the provider up, \<open>get_quandl_data\<close> raises the
  deserialisation failure, sends no request and leaves the corrupt file in place.
\<close>

theorem corrupt_cache_not_refetched_counterexample:
  "get_quandl_data (provider_up (7::nat)) ''BCHARTS/KRAKENUSD'' corrupt_cache
     = (Inl (UnpicklingError ''data/BCHARTS-KRAKENUSD.pkl''), corrupt_cache)
   \<and> net_calls (corrupt_cache :: nat world) = []
   \<and> files (corrupt_cache :: nat world) ''data/BCHARTS-KRAKENUSD.pkl'' = Some Garbage"
proof -
  have p: "quandl_cache_path ''BCHARTS/KRAKENUSD'' = ''data/BCHARTS-KRAKENUSD.pkl''"
    by (simp add: quandl_cache_path_def format_pkl_def data_dir_def replace_char)
  have f: "files (corrupt_cache :: nat world) ''data/BCHARTS-KRAKENUSD.pkl'' = Some Garbage"
    by (simp add: corrupt_cache_def empty_cache_def)
  from f have "files (corrupt_cache :: nat world) (quandl_cache_path ''BCHARTS/KRAKENUSD'') = Some Garbage"
    by (simp only: p)
  from get_quandl_data_garbage [OF this, of "provider_up 7"] f show ?thesis
    by (simp add: p corrupt_cache_def empty_cache_def)
qed

text \<open>
  C3, amended. When the cache file exists and deserialising it fails, each fetcher raises
  that failure: it returns no table, and the world (files, requests sent, lines printed) is
  unchanged, so nothing is downloaded and nothing is written.
\<close>

theorem corrupt_cache_propagates:
  "(files w (quandl_cache_path quandl_id) = Some Garbage
    \<longrightarrow> get_quandl_data quandl_get quandl_id w
          = (Inl (UnpicklingError (quandl_cache_path quandl_id)), w))
   \<and> (files w (json_cache_path file_name) = Some Garbage
    \<longrightarrow> get_json_data read_json json_url file_name w
          = (Inl (UnpicklingError (json_cache_path file_name)), w))"
  by (simp add: get_quandl_data_garbage get_json_data_garbage)

theorem corrupt_cache_propagates_witness:
  "files (corrupt_cache :: nat world) (quandl_cache_path ''BCHARTS/KRAKENUSD'') = Some Garbage
   \<and> get_quandl_data (provider_up 7) ''BCHARTS/KRAKENUSD'' (corrupt_cache :: nat world)
       = (Inl (UnpicklingError (quandl_cache_path ''BCHARTS/KRAKENUSD'')), corrupt_cache)
   \<and> files (corrupt_cache :: nat world) (json_cache_path ''BTC_ETH'') = Some Garbage
   \<and> get_json_data (provider_up 7) ''https://poloniex.com/public'' ''BTC_ETH''
         (corrupt_cache :: nat world)
       = (Inl (UnpicklingError (json_cache_path ''BTC_ETH'')), corrupt_cache)"
proof -
  note t = corrupt_cache_propagates [of "corrupt_cache :: nat world" "''BCHARTS/KRAKENUSD''"
      "provider_up 7" "''BTC_ETH''" "provider_up 7" "''https://poloniex.com/public''"]
  have hq: "files (corrupt_cache :: nat world) (quandl_cache_path ''BCHARTS/KRAKENUSD'') = Some Garbage"
    by (simp add: corrupt_cache_def empty_cache_def quandl_cache_path_def format_pkl_def
        data_dir_def replace_char)
  have hj: "files (corrupt_cache :: nat world) (json_cache_path ''BTC_ETH'') = Some Garbage"
    by (simp add: corrupt_cache_def empty_cache_def json_cache_path_def format_pkl_def data_dir_def)
  show ?thesis
    by (rule conjI [OF hq conjI [OF mp [OF conjunct1 [OF t] hq]
          conjI [OF hj mp [OF conjunct2 [OF t] hj]]]])
qed

text \<open>
  C4 (the cache path). As stated the claim fails for \<open>get_json_data\<close>, which takes the file
  name as it is: the pair name \<^verbatim>\<open>BTC/ETH\<close> is cached under \<^verbatim>\<open>data/BTC/ETH.pkl\<close>, a path
  with a separator in the file name, and not under \<^verbatim>\<open>data/BTC-ETH.pkl\<close>.
\<close>

theorem json_cache_path_keeps_separator_counterexample:
  "json_cache_path ''BTC/ETH'' = ''data/BTC/ETH.pkl''
   \<and> files (snd (get_json_data (provider_up (7::nat)) ''https://poloniex.com/public'' ''BTC/ETH''
                   empty_cache)) ''data/BTC/ETH.pkl'' = Some (Pickled 7)
   \<and> files (snd (get_json_data (provider_up (7::nat)) ''https://poloniex.com/public'' ''BTC/ETH''
                   empty_cache)) ''data/BTC-ETH.pkl'' = None"
proof -
  have p: "json_cache_path ''BTC/ETH'' = ''data/BTC/ETH.pkl''"
    by (simp add: json_cache_path_def format_pkl_def data_dir_def)
  have m: "files (empty_cache :: nat world) (json_cache_path ''BTC/ETH'') = None"
    by (simp add: empty_cache_def)
  show ?thesis
    by (simp add: get_json_data_miss [OF m] provider_up_def to_pickle_def print_def p
        empty_cache_simps)
qed

text \<open>
  C4, amended. \<open>get_quandl_data\<close> caches an identifier under the cache directory followed
  by the identifier with every \<^verbatim>\<open>/\<close> turned into \<^verbatim>\<open>-\<close> and by \<^verbatim>\<open>.pkl\<close>, so the file name
  after the directory has no separator. \<open>get_json_data\<close> replaces nothing: its path is the
  cache directory, the file name as given and \<^verbatim>\<open>.pkl\<close>.
\<close>

theorem cache_path_of_identifier:
  "quandl_cache_path quandl_id
     = data_dir @ map (\<lambda>c. if c = CHR ''/'' then CHR ''-'' else c) quandl_id @ ''.pkl''
   \<and> CHR ''/'' \<notin> set (drop (length data_dir) (quandl_cache_path quandl_id))
   \<and> json_cache_path file_name = data_dir @ file_name @ ''.pkl''"
  by (auto simp: quandl_cache_path_def json_cache_path_def format_pkl_def replace_char)

section \<open>Properties of the series merger\<close>

subsection \<open>Dictionaries and column lookup\<close>

lemma map_of_dict_set: "map_of (dict_set d k v) = (map_of d)(k \<mapsto> v)"
  by (induction d) (auto simp: fun_eq_iff)

lemma keys_dict_set:
  "map fst (dict_set d k v) = (if k \<in> set (map fst d) then map fst d else map fst d @ [k])"
  by (induction d) auto

lemma dict_set_fresh: "k \<notin> fst ` set d \<Longrightarrow> dict_set d k v = d @ [(k, v)]"
  by (induction d) auto

lemma getitem_Inr:
  "getitem df col = Inr s \<Longrightarrow> \<exists>vs. map_of (df_columns df) col = Some vs \<and> s = zip (df_index df) vs"
  by (auto simp: getitem_def split: option.splits)

subsection \<open>The keys collected by the loop\<close>

lemma merge_loop_keys:
  "merge_loop dfs labels col is d = Inr d' \<Longrightarrow>
   map fst d' = fold (\<lambda>i ks. if labels ! i \<in> set ks then ks else ks @ [labels ! i]) is (map fst d)
   \<and> (\<forall>i\<in>set is. i < length labels)"
proof (induction "is" arbitrary: d)
  case Nil
  then show ?case by simp
next
  case (Cons i "is")
  from Cons.prems obtain s where
    i: "i < length dfs" "i < length labels" and g: "getitem (dfs ! i) col = Inr s"
    and r: "merge_loop dfs labels col is (dict_set d (labels ! i) s) = Inr d'"
    by (auto simp: list_get_def split: sum.splits if_splits)
  from Cons.IH [OF r] i show ?case
    by (simp add: keys_dict_set)
qed

lemma remdups_snoc: "remdups (zs @ [x]) = remdups (filter (\<lambda>y. y \<noteq> x) zs) @ [x]"
  by (induction zs) auto

lemma fold_insert_new:
  "fold (\<lambda>x ks. if x \<in> set ks then ks else ks @ [x]) xs ks
   = ks @ rev (remdups (rev (filter (\<lambda>x. x \<notin> set ks) xs)))"
proof (induction xs arbitrary: ks)
  case Nil
  show ?case by simp
next
  case (Cons x xs)
  show ?case
  proof (cases "x \<in> set ks")
    case True
    then show ?thesis by (simp add: Cons.IH)
  next
    case False
    have "remdups (rev (filter (\<lambda>y. y \<notin> set ks) xs) @ [x])
        = remdups (rev (filter (\<lambda>y. y \<noteq> x \<and> y \<notin> set ks) xs)) @ [x]"
      by (simp add: remdups_snoc rev_filter [symmetric] conj_commute)
    then show ?thesis using False by (simp add: Cons.IH conj_commute)
  qed
qed

subsection \<open>Alignment in the table constructor\<close>

lemma reindex_index: "reindex s target = Inr s' \<Longrightarrow> map fst s' = target"
  by (auto simp: reindex_def comp_def split: if_splits)

lemma reindex_absent:
  assumes "reindex s target = Inr s'" and "d \<notin> fst ` set s" and "(d, v) \<in> set s'"
  shows "v = None"
proof (cases "map fst s = target")
  case True
  with assms(1) have "s' = s" by (simp add: reindex_def)
  with assms(3) have "d \<in> fst ` set s" by force
  with assms(2) show ?thesis by simp
next
  case False
  from assms(2) have none: "map_of s d = None"
    by (simp add: map_of_eq_None_iff)
  from False assms(1) have
    "s' = map (\<lambda>d. (d, case map_of s d of None \<Rightarrow> None | Some c \<Rightarrow> c)) target"
    by (simp add: reindex_def split: if_splits)
  with assms(3) none show ?thesis by auto
qed

lemma reindex_distinct: "distinct (map fst s) \<Longrightarrow> \<exists>s'. reindex s target = Inr s'"
  by (simp add: reindex_def)

lemma set_union_indexes: "set (union_indexes idxs) = (\<Union>i\<in>set idxs. set i)"
  by (cases idxs) (auto simp: union_indexes_def list_all_iff)

lemma homogenize_Inr:
  "homogenize idx d = Inr cols \<Longrightarrow>
   list_all2 (\<lambda>p c. fst c = fst p \<and> (\<exists>s'. reindex (snd p) idx = Inr s' \<and> snd c = map snd s')) d cols"
proof (induction d arbitrary: cols)
  case Nil
  then show ?case by simp
next
  case (Cons p d)
  from Cons.prems obtain s' cols' where
    "reindex (snd p) idx = Inr s'" "homogenize idx d = Inr cols'" "cols = (fst p, map snd s') # cols'"
    by (auto split: sum.splits)
  with Cons.IH show ?case by simp
qed

lemma homogenize_keys: "homogenize idx d = Inr cols \<Longrightarrow> map fst cols = map fst d"
proof (induction d arbitrary: cols)
  case Nil
  then show ?case by simp
next
  case (Cons p d)
  then show ?case by (auto split: sum.splits)
qed

lemma homogenize_succeeds:
  "\<forall>p\<in>set d. \<exists>s'. reindex (snd p) idx = Inr s' \<Longrightarrow> \<exists>cols. homogenize idx d = Inr cols"
  by (induction d) (auto split: sum.splits)

lemma homogenize_member:
  "homogenize idx d = Inr cols \<Longrightarrow> (l, s) \<in> set d \<Longrightarrow>
   \<exists>s'. reindex s idx = Inr s' \<and> (l, map snd s') \<in> set cols"
proof (induction d arbitrary: cols)
  case Nil
  then show ?case by simp
next
  case (Cons p d)
  from Cons.prems(1) obtain s0 cols' where
    p: "reindex (snd p) idx = Inr s0" and d: "homogenize idx d = Inr cols'"
    and cols: "cols = (fst p, map snd s0) # cols'"
    by (auto split: sum.splits)
  show ?case
  proof (cases "(l, s) = p")
    case True
    with p cols show ?thesis by auto
  next
    case False
    with Cons.prems(2) have "(l, s) \<in> set d" by simp
    from Cons.IH [OF d this] cols show ?thesis by auto
  qed
qed

text \<open>Either key order takes every item of the dictionary once.\<close>

lemma map_insort_key: "map f (insort_key f x xs) = insort (f x) (map f xs)"
  by (induction xs) auto

lemma map_sort_key: "map f (sort_key f xs) = sort (map f xs)"
  by (induction xs) (simp_all add: map_insort_key)

lemma set_dict_items: "set (dict_items order d) = set d"
  by (cases order) (simp_all add: dict_items_def)

lemma keys_dict_items:
  "map fst (dict_items order d)
   = (case order of Insertion_order \<Rightarrow> map fst d | Sorted_keys \<Rightarrow> sort (map fst d))"
  by (cases order) (simp_all add: dict_items_def map_sort_key)

lemma distinct_keys_dict_items:
  "distinct (map fst d) \<Longrightarrow> distinct (map fst (dict_items order d))"
  by (cases order) (simp_all add: keys_dict_items)

lemma DataFrame_Inr:
  assumes "DataFrame order d = Inr t"
  shows "df_index t = union_indexes (map (\<lambda>p. map fst (snd p)) (dict_items order d))"
    and "homogenize (df_index t) (dict_items order d) = Inr (df_columns t)"
  using assms by (auto simp: DataFrame_def Let_def split: sum.splits)

lemma merge_dfs_on_column_Inr:
  assumes "merge_dfs_on_column order dfs labels col = Inr t"
  obtains d where "merge_loop dfs labels col [0..<length dfs] [] = Inr d"
    and "DataFrame order d = Inr t"
  using assms by (auto simp: merge_dfs_on_column_def split: sum.splits)

lemma first_labels:
  assumes "\<forall>i\<in>set [0..<n]. i < length labels"
  shows "map ((!) labels) [0..<n] = take n labels"
proof -
  from assms have "n \<le> length labels"
    by (cases n) auto
  then show ?thesis
    by (auto simp: list_eq_iff_nth_eq)
qed

subsection \<open>What the loop raises and what it collects\<close>

lemma merge_loop_missing:
  assumes "\<forall>i\<in>set is. i < length dfs"
    and "\<exists>i\<in>set is. map_of (df_columns (dfs ! i)) col = None"
  shows "\<exists>e. merge_loop dfs labels col is d = Inl e"
    and "\<forall>i\<in>set is. i < length labels \<Longrightarrow> merge_loop dfs labels col is d = Inl (KeyError col)"
  using assms
proof (induction "is" arbitrary: d)
  case Nil
  {
    case 1 then show ?case by simp
  next
    case 2 then show ?case by simp
  }
next
  case (Cons i "is")
  {
    case 1
    show ?case
    proof (cases "map_of (df_columns (dfs ! i)) col")
      case None
      with 1 show ?thesis by (simp add: list_get_def getitem_def)
    next
      case (Some vs)
      with 1 have "\<exists>i\<in>set is. map_of (df_columns (dfs ! i)) col = None" by auto
      with 1 Cons.IH(1) have "\<And>d. \<exists>e. merge_loop dfs labels col is d = Inl e" by simp
      with Some 1 show ?thesis
        by (auto simp: list_get_def getitem_def)
    qed
  next
    case 2
    show ?case
    proof (cases "map_of (df_columns (dfs ! i)) col")
      case None
      with 2 show ?thesis by (simp add: list_get_def getitem_def)
    next
      case (Some vs)
      with 2 have "\<exists>i\<in>set is. map_of (df_columns (dfs ! i)) col = None" by auto
      with 2 Cons.IH(2) have "\<And>d. merge_loop dfs labels col is d = Inl (KeyError col)" by simp
      with Some 2 show ?thesis
        by (auto simp: list_get_def getitem_def)
    qed
  }
qed

lemma merge_loop_distinct:
  assumes "merge_loop dfs labels col is d = Inr d'"
    and "distinct (map ((!) labels) is)"
    and "\<forall>i\<in>set is. labels ! i \<notin> fst ` set d"
  shows "\<exists>ss. d' = d @ zip (map ((!) labels) is) ss
           \<and> list_all2 (\<lambda>i s. getitem (dfs ! i) col = Inr s) is ss"
  using assms
proof (induction "is" arbitrary: d)
  case Nil
  then show ?case by simp
next
  case (Cons i "is")
  from Cons.prems(1) obtain s where
    i: "i < length dfs" "i < length labels" and g: "getitem (dfs ! i) col = Inr s"
    and r: "merge_loop dfs labels col is (dict_set d (labels ! i) s) = Inr d'"
    by (auto simp: list_get_def split: sum.splits if_splits)
  from Cons.prems(3) have fresh: "dict_set d (labels ! i) s = d @ [(labels ! i, s)]"
    by (simp add: dict_set_fresh)
  from Cons.prems(2,3) have
    "distinct (map ((!) labels) is)" "\<forall>j\<in>set is. labels ! j \<notin> fst ` set (d @ [(labels ! i, s)])"
    by (auto simp: image_iff)
  from Cons.IH [OF r [unfolded fresh] this] obtain ss where
    "d' = (d @ [(labels ! i, s)]) @ zip (map ((!) labels) is) ss"
    "list_all2 (\<lambda>i s. getitem (dfs ! i) col = Inr s) is ss"
    by blast
  with g have "d' = d @ zip (map ((!) labels) (i # is)) (s # ss)
      \<and> list_all2 (\<lambda>i s. getitem (dfs ! i) col = Inr s) (i # is) (s # ss)"
    by simp
  then show ?case by blast
qed

lemma merge_loop_succeeds:
  assumes "\<forall>i\<in>set is. i < length dfs \<and> i < length labels
              \<and> col \<in> fst ` set (df_columns (dfs ! i))"
  shows "\<exists>d'. merge_loop dfs labels col is d = Inr d'"
  using assms
proof (induction "is" arbitrary: d)
  case Nil
  show ?case by simp
next
  case (Cons i "is")
  from Cons.prems obtain vs where "map_of (df_columns (dfs ! i)) col = Some vs"
    by (cases "map_of (df_columns (dfs ! i)) col") (auto simp: map_of_eq_None_iff)
  with Cons show ?case
    by (simp add: list_get_def getitem_def)
qed

lemma merge_loop_values:
  assumes "merge_loop dfs labels col is d = Inr d'" and "p \<in> set d'"
  shows "p \<in> set d \<or> (\<exists>i\<in>set is. getitem (dfs ! i) col = Inr (snd p))"
  using assms
proof (induction "is" arbitrary: d)
  case Nil
  then show ?case by simp
next
  case (Cons i "is")
  from Cons.prems(1) obtain s where
    g: "getitem (dfs ! i) col = Inr s"
    and r: "merge_loop dfs labels col is (dict_set d (labels ! i) s) = Inr d'"
    by (auto simp: list_get_def split: sum.splits if_splits)
  have sub: "set (dict_set d k v) \<subseteq> insert (k, v) (set d)" for k and v :: "'a series"
    by (induction d) auto
  from Cons.IH [OF r Cons.prems(2)] g sub [of "labels ! i" s] show ?case
    by auto
qed

subsection \<open>Rows and cells of the merged table\<close>

lemma getitem_wf_index:
  assumes "getitem df col = Inr s" and "wf_dataframe df"
  shows "map fst s = df_index df"
proof -
  from getitem_Inr [OF assms(1)] obtain vs where
    vs: "map_of (df_columns df) col = Some vs" and s: "s = zip (df_index df) vs"
    by blast
  from vs have "(col, vs) \<in> set (df_columns df)"
    by (rule map_of_SomeD)
  with assms(2) have "length vs = length (df_index df)"
    by (auto simp: wf_dataframe_def list_all_iff)
  with s show ?thesis by simp
qed

lemma getitem_index_subset:
  assumes "getitem df col = Inr s"
  shows "fst ` set s \<subseteq> set (df_index df)" and "distinct (df_index df) \<Longrightarrow> distinct (map fst s)"
proof -
  from getitem_Inr [OF assms(1)] obtain vs where s: "s = zip (df_index df) vs"
    by blast
  then have m: "map fst s = take (length vs) (df_index df)"
    by (simp add: map_fst_zip_take min_def)
  have "fst ` set s = set (map fst s)" by simp
  also have "\<dots> \<subseteq> set (df_index df)"
    unfolding m by (rule set_take_subset)
  finally show "fst ` set s \<subseteq> set (df_index df)" .
  show "distinct (map fst s)" if "distinct (df_index df)"
    unfolding m using that by (rule distinct_take)
qed

text \<open>The dictionary built by the loop when every frame has a label of its own.\<close>

lemma merge_dict_distinct_labels:
  assumes "merge_loop dfs labels col [0..<length dfs] [] = Inr d"
    and "distinct labels" and "length labels = length dfs"
  shows "\<exists>ss. d = zip labels ss \<and> length ss = length dfs
           \<and> (\<forall>i<length dfs. getitem (dfs ! i) col = Inr (ss ! i))"
proof -
  have l: "map ((!) labels) [0..<length dfs] = labels"
    using assms(3) map_nth [of labels] by simp
  from merge_loop_distinct [OF assms(1)] assms(2) l obtain ss where
    d: "d = zip labels ss" and a: "list_all2 (\<lambda>i s. getitem (dfs ! i) col = Inr s) [0..<length dfs] ss"
    by auto
  from a have len: "length ss = length dfs"
    by (auto dest: list_all2_lengthD)
  from a have "\<forall>i<length dfs. getitem (dfs ! i) col = Inr (ss ! i)"
    by (auto simp: list_all2_conv_all_nth)
  with d len show ?thesis by blast
qed


lemma merge_row_set:
  assumes "merge_dfs_on_column order dfs labels col = Inr t"
    and "distinct labels" and "length labels = length dfs"
    and "list_all wf_dataframe dfs"
  shows "set (df_index t) = (\<Union>df\<in>set dfs. set (df_index df))"
proof -
  from assms(1) obtain d where loop: "merge_loop dfs labels col [0..<length dfs] [] = Inr d"
    and frame: "DataFrame order d = Inr t"
    by (rule merge_dfs_on_column_Inr)
  from merge_dict_distinct_labels [OF loop assms(2,3)] obtain ss where
    d: "d = zip labels ss" and len: "length ss = length dfs"
    and get: "\<And>i. i < length dfs \<Longrightarrow> getitem (dfs ! i) col = Inr (ss ! i)"
    by blast
  have idx: "map fst (ss ! i) = df_index (dfs ! i)" if "i < length dfs" for i
    using get [OF that] assms(4) that by (auto intro: getitem_wf_index simp: list_all_iff)
  have "map (\<lambda>p. map fst (snd p)) d = map (map fst) ss"
    using d len assms(3) by (simp add: list_eq_iff_nth_eq)
  also have "\<dots> = map df_index dfs"
    using len idx by (simp add: list_eq_iff_nth_eq)
  finally have series: "(\<lambda>p. map fst (snd p)) ` set d = df_index ` set dfs"
    by (metis list.set_map)
  have "set (df_index t) = (\<Union>i\<in>(\<lambda>p. map fst (snd p)) ` set (dict_items order d). set i)"
    using DataFrame_Inr(1) [OF frame] by (simp add: set_union_indexes)
  also have "\<dots> = (\<Union>i\<in>df_index ` set dfs. set i)"
    by (simp only: set_dict_items series)
  finally show ?thesis by simp
qed

lemma merge_absent_cells:
  assumes "merge_dfs_on_column order dfs labels col = Inr t"
    and "distinct labels" and "length labels = length dfs"
    and "j < length dfs" and "d \<in> set (df_index t)" and "d \<notin> set (df_index (dfs ! j))"
  shows "\<exists>s. getitem t (labels ! j) = Inr s \<and> d \<in> fst ` set s \<and> (\<forall>v. (d, v) \<in> set s \<longrightarrow> v = None)"
proof -
  from assms(1) obtain dict where loop: "merge_loop dfs labels col [0..<length dfs] [] = Inr dict"
    and frame: "DataFrame order dict = Inr t"
    by (rule merge_dfs_on_column_Inr)
  from merge_dict_distinct_labels [OF loop assms(2,3)] obtain ss where
    dict: "dict = zip labels ss" and len: "length ss = length dfs"
    and get: "\<And>i. i < length dfs \<Longrightarrow> getitem (dfs ! i) col = Inr (ss ! i)"
    by blast
  note hom = DataFrame_Inr(2) [OF frame]
  have "(labels ! j, ss ! j) \<in> set dict"
    using dict len assms(3,4) by (auto simp: in_set_zip)
  then have "(labels ! j, ss ! j) \<in> set (dict_items order dict)"
    by (simp add: set_dict_items)
  from homogenize_member [OF hom this] obtain s' where
    r: "reindex (ss ! j) (df_index t) = Inr s'" and c: "(labels ! j, map snd s') \<in> set (df_columns t)"
    by blast
  have "map fst dict = labels"
    using dict len assms(3) by simp
  with assms(2) have "distinct (map fst (dict_items order dict))"
    by (simp add: distinct_keys_dict_items)
  with homogenize_keys [OF hom] have "distinct (map fst (df_columns t))"
    by simp
  with c have "map_of (df_columns t) (labels ! j) = Some (map snd s')"
    by simp
  moreover have "zip (df_index t) (map snd s') = s'"
    using reindex_index [OF r] by (metis zip_map_fst_snd)
  ultimately have g: "getitem t (labels ! j) = Inr s'"
    by (simp add: getitem_def)
  from getitem_index_subset(1) [OF get [OF assms(4)]] assms(6) have "d \<notin> fst ` set (ss ! j)"
    by blast
  then have "\<forall>v. (d, v) \<in> set s' \<longrightarrow> v = None"
    using reindex_absent [OF r] by blast
  moreover have "d \<in> fst ` set s'"
    using reindex_index [OF r] assms(5) by (metis list.set_map)
  ultimately show ?thesis using g by blast
qed

lemma merge_succeeds:
  assumes "length labels = length dfs"
    and "list_all (\<lambda>df. distinct (df_index df) \<and> col \<in> fst ` set (df_columns df)) dfs"
  shows "\<exists>t. merge_dfs_on_column order dfs labels col = Inr t"
proof -
  from assms have "\<forall>i\<in>set [0..<length dfs]. i < length dfs \<and> i < length labels
      \<and> col \<in> fst ` set (df_columns (dfs ! i))"
    by (simp add: list_all_length)
  from merge_loop_succeeds [OF this] obtain d where
    loop: "merge_loop dfs labels col [0..<length dfs] [] = Inr d"
    by blast
  have "\<exists>s'. reindex (snd p) idx = Inr s'" if "p \<in> set (dict_items order d)" for p idx
  proof -
    from that have "p \<in> set d" by (simp add: set_dict_items)
    from merge_loop_values [OF loop this] obtain i where
      "i < length dfs" "getitem (dfs ! i) col = Inr (snd p)"
      by auto
    moreover from this assms(2) have "distinct (df_index (dfs ! i))"
      by (simp add: list_all_length)
    ultimately have "distinct (map fst (snd p))"
      by (simp add: getitem_index_subset(2))
    then show ?thesis by (rule reindex_distinct)
  qed
  then have "\<exists>cols. homogenize idx (dict_items order d) = Inr cols" for idx
    by (intro homogenize_succeeds) blast
  then have "\<exists>t. DataFrame order d = Inr t"
    by (simp add: DataFrame_def Let_def split: sum.splits) (metis sum.distinct(1))
  with loop show ?thesis
    by (simp add: merge_dfs_on_column_def)
qed

text \<open>The merge of the two sample exchanges and the dictionary its loop builds, evaluated.\<close>

lemma merge_kraken_bitstamp:
  "merge_dfs_on_column Insertion_order [kraken, bitstamp] [''KRAKEN'', ''BITSTAMP'']
     ''Weighted Price''
   = Inr \<lparr>df_index = [1, 2, 3],
          df_columns = [(''KRAKEN'', [Some 10, Some 20, None]),
                        (''BITSTAMP'', [None, Some 21, Some 31])]\<rparr>"
  by code_simp

lemma merge_loop_kraken_bitstamp:
  "merge_loop [kraken, bitstamp] [''KRAKEN'', ''BITSTAMP''] ''Weighted Price''
       [0..<length [kraken, bitstamp]] []
   = Inr [(''KRAKEN'', [(1, Some 10), (2, Some 20)]), (''BITSTAMP'', [(2, Some 21), (3, Some 31)])]"
  by code_simp

text \<open>
  C6 (column order). As stated the claim fails: the function hands a plain \<open>dict\<close> to
  \<^verbatim>\<open>pd.DataFrame\<close>, and on a pandas that sorts the keys of a plain \<open>dict\<close>, as at the
  notebook's recorded run, the labels Kraken, Bitstamp give the columns Bitstamp, Kraken:
  the alphabetical order, not the order of the labels.
\<close>

theorem merge_column_order_counterexample:
  "merge_dfs_on_column Sorted_keys [kraken, bitstamp] [''KRAKEN'', ''BITSTAMP''] ''Weighted Price''
   = Inr \<lparr>df_index = [1, 2, 3],
          df_columns = [(''BITSTAMP'', [None, Some 21, Some 31]),
                        (''KRAKEN'', [Some 10, Some 20, None])]\<rparr>"
  by code_simp

text \<open>
  C6, amended. The dictionary that the loop of \<open>merge_dfs_on_column\<close> builds has its keys
  in the order of the \<open>labels\<close> argument, a label that occurs again keeping the place of
  its first occurrence. When a table is returned there is a label for every frame, and its
  columns are those keys in the order in which \<^verbatim>\<open>pd.DataFrame\<close> takes the keys of a plain
  \<open>dict\<close>: the order of the labels on a pandas that keeps the order of the dictionary, the
  sorted order of the labels on a pandas that sorts the keys. With pairwise distinct labels,
  one per frame, the columns are exactly \<open>labels\<close> in the first case and \<open>labels\<close> sorted
  in the second. The dates play no part in the order of the columns.
\<close>

theorem merge_column_order:
  "(merge_loop dataframes labels col [0..<length dataframes] [] = Inr series_dict
    \<longrightarrow> map fst series_dict = rev (remdups (rev (take (length dataframes) labels))))
   \<and> (merge_dfs_on_column order dataframes labels col = Inr t \<longrightarrow>
       length dataframes \<le> length labels
       \<and> map fst (df_columns t)
           = (case order of
                Insertion_order \<Rightarrow> rev (remdups (rev (take (length dataframes) labels)))
              | Sorted_keys \<Rightarrow> sort (rev (remdups (rev (take (length dataframes) labels)))))
       \<and> (distinct labels \<and> length labels = length dataframes
            \<longrightarrow> map fst (df_columns t)
                  = (case order of Insertion_order \<Rightarrow> labels | Sorted_keys \<Rightarrow> sort labels)))"
proof -
  have keys: "map fst d = rev (remdups (rev (take (length dataframes) labels)))
      \<and> length dataframes \<le> length labels"
    if loop: "merge_loop dataframes labels col [0..<length dataframes] [] = Inr d" for d
  proof -
    from merge_loop_keys [OF loop] have
      k: "map fst d = fold (\<lambda>i ks. if labels ! i \<in> set ks then ks else ks @ [labels ! i])
                         [0..<length dataframes] []"
      and bound: "\<forall>i\<in>set [0..<length dataframes]. i < length labels"
      by simp_all
    from bound have len: "length dataframes \<le> length labels"
      by (cases "length dataframes") auto
    have "fold (\<lambda>i ks. if labels ! i \<in> set ks then ks else ks @ [labels ! i]) [0..<length dataframes] []
        = fold (\<lambda>x ks. if x \<in> set ks then ks else ks @ [x]) (map ((!) labels) [0..<length dataframes]) []"
      by (simp add: fold_map comp_def)
    also have "\<dots> = rev (remdups (rev (take (length dataframes) labels)))"
      by (simp add: fold_insert_new first_labels [OF bound])
    finally show ?thesis using k len by simp
  qed
  have table: "length dataframes \<le> length labels
       \<and> map fst (df_columns t)
           = (case order of
                Insertion_order \<Rightarrow> rev (remdups (rev (take (length dataframes) labels)))
              | Sorted_keys \<Rightarrow> sort (rev (remdups (rev (take (length dataframes) labels)))))
       \<and> (distinct labels \<and> length labels = length dataframes
            \<longrightarrow> map fst (df_columns t)
                  = (case order of Insertion_order \<Rightarrow> labels | Sorted_keys \<Rightarrow> sort labels))"
    if "merge_dfs_on_column order dataframes labels col = Inr t"
  proof -
    from that obtain d where loop: "merge_loop dataframes labels col [0..<length dataframes] [] = Inr d"
      and frame: "DataFrame order d = Inr t"
      by (rule merge_dfs_on_column_Inr)
    note k = keys [OF loop]
    have "map fst (df_columns t) = map fst (dict_items order d)"
      using DataFrame_Inr(2) [OF frame] by (rule homogenize_keys)
    with k have cols: "map fst (df_columns t)
           = (case order of
                Insertion_order \<Rightarrow> rev (remdups (rev (take (length dataframes) labels)))
              | Sorted_keys \<Rightarrow> sort (rev (remdups (rev (take (length dataframes) labels)))))"
      by (cases order) (simp_all add: keys_dict_items)
    have "map fst (df_columns t)
        = (case order of Insertion_order \<Rightarrow> labels | Sorted_keys \<Rightarrow> sort labels)"
      if "distinct labels \<and> length labels = length dataframes"
      using that cols by (cases order) (simp_all add: distinct_remdups_id)
    with k cols show ?thesis by blast
  qed
  from keys table show ?thesis by blast
qed

text \<open>
  Kraken before Bitstamp: on a pandas that keeps the order of the dictionary the columns
  come out in that order.
\<close>

theorem merge_column_order_witness:
  "merge_loop [kraken, bitstamp] [''KRAKEN'', ''BITSTAMP''] ''Weighted Price''
       [0..<length [kraken, bitstamp]] []
     = Inr [(''KRAKEN'', [(1, Some 10), (2, Some 20)]), (''BITSTAMP'', [(2, Some 21), (3, Some 31)])]
   \<and> map fst [(''KRAKEN'', [(1::int, Some (10::int)), (2, Some 20)]),
              (''BITSTAMP'', [(2, Some 21), (3, Some 31)])]
     = rev (remdups (rev (take (length [kraken, bitstamp]) [''KRAKEN'', ''BITSTAMP''])))
   \<and> merge_dfs_on_column Insertion_order [kraken, bitstamp] [''KRAKEN'', ''BITSTAMP'']
       ''Weighted Price''
     = Inr \<lparr>df_index = [1, 2, 3],
            df_columns = [(''KRAKEN'', [Some 10, Some 20, None]),
                          (''BITSTAMP'', [None, Some 21, Some 31])]\<rparr>
   \<and> (distinct [''KRAKEN'', ''BITSTAMP'']
      \<and> length [''KRAKEN'', ''BITSTAMP''] = length [kraken, bitstamp])
   \<and> map fst (df_columns \<lparr>df_index = [1, 2, 3],
            df_columns = [(''KRAKEN'', [Some 10, Some (20::int), None]),
                          (''BITSTAMP'', [None, Some 21, Some 31])]\<rparr>)
     = (case Insertion_order of Insertion_order \<Rightarrow> [''KRAKEN'', ''BITSTAMP'']
        | Sorted_keys \<Rightarrow> sort [''KRAKEN'', ''BITSTAMP''])"
proof -
  have d: "distinct [''KRAKEN'', ''BITSTAMP'']
      \<and> length [''KRAKEN'', ''BITSTAMP''] = length [kraken, bitstamp]"
    by simp
  note t = merge_column_order [where dataframes = "[kraken, bitstamp]"
      and labels = "[''KRAKEN'', ''BITSTAMP'']" and col = "''Weighted Price''"
      and series_dict = "[(''KRAKEN'', [(1, Some 10), (2, Some 20)]),
                          (''BITSTAMP'', [(2, Some 21), (3, Some 31)])]"
      and order = Insertion_order
      and t = "\<lparr>df_index = [1, 2, 3],
            df_columns = [(''KRAKEN'', [Some 10, Some 20, None]),
                          (''BITSTAMP'', [None, Some 21, Some 31])]\<rparr>"]
  note k = mp [OF conjunct1 [OF t] merge_loop_kraken_bitstamp]
  note c = mp [OF conjunct2 [OF t] merge_kraken_bitstamp]
  note o = mp [OF conjunct2 [OF conjunct2 [OF c]] d]
  show ?thesis
    by (rule conjI [OF merge_loop_kraken_bitstamp conjI [OF k conjI [OF merge_kraken_bitstamp
          conjI [OF d o]]]])
qed

text \<open>
  C7 (no sources). With no frames and no labels the loop does not run and the table built
  from the empty dictionary has no rows and no columns; nothing is raised. This holds under
  either key order.
\<close>

theorem merge_nothing:
  "merge_dfs_on_column order [] [] col = Inr \<lparr>df_index = [], df_columns = []\<rparr>"
  by (cases order) (simp_all add: merge_dfs_on_column_def DataFrame_def dict_items_def union_indexes_def)

text \<open>
  C2 (a frame without the field). As stated the claim fails: \<^verbatim>\<open>dataframes[index][col]\<close>
  raises \<open>KeyError\<close> on a frame without the column. Merging the Kraken frame with a frame
  that has no price column returns no table.
\<close>

theorem merge_missing_field_counterexample:
  "merge_dfs_on_column Insertion_order [kraken, no_price] [''KRAKEN'', ''OTHER''] ''Weighted Price''
     = Inl (KeyError ''Weighted Price'')
   \<and> merge_dfs_on_column Sorted_keys [kraken, no_price] [''KRAKEN'', ''OTHER''] ''Weighted Price''
     = Inl (KeyError ''Weighted Price'')"
  by code_simp

text \<open>
  C2, amended. If the named field is missing from at least one of the frames,
  \<open>merge_dfs_on_column\<close> raises and returns no table, whatever the labels; when there is
  a label for every frame the exception is the \<open>KeyError\<close> of the column lookup. No column
  is filled with unset values.
\<close>

theorem merge_missing_field_raises:
  "(\<exists>df\<in>set dataframes. col \<notin> fst ` set (df_columns df)) \<longrightarrow>
     (\<exists>e. merge_dfs_on_column order dataframes labels col = Inl e)
     \<and> (length dataframes \<le> length labels
          \<longrightarrow> merge_dfs_on_column order dataframes labels col = Inl (KeyError col))"
proof
  assume "\<exists>df\<in>set dataframes. col \<notin> fst ` set (df_columns df)"
  then obtain i where "i < length dataframes" "col \<notin> fst ` set (df_columns (dataframes ! i))"
    by (auto simp: in_set_conv_nth)
  then have missing: "\<exists>i\<in>set [0..<length dataframes]. map_of (df_columns (dataframes ! i)) col = None"
    by (auto simp: map_of_eq_None_iff)
  have range: "\<forall>i\<in>set [0..<length dataframes]. i < length dataframes"
    by simp
  from merge_loop_missing(1) [OF range missing] obtain e where
    "merge_loop dataframes labels col [0..<length dataframes] [] = Inl e"
    by blast
  then have raises: "\<exists>e. merge_dfs_on_column order dataframes labels col = Inl e"
    by (simp add: merge_dfs_on_column_def)
  have "merge_dfs_on_column order dataframes labels col = Inl (KeyError col)"
    if "length dataframes \<le> length labels"
  proof -
    from that have "\<forall>i\<in>set [0..<length dataframes]. i < length labels"
      by simp
    from merge_loop_missing(2) [OF range missing this] show ?thesis
      by (simp add: merge_dfs_on_column_def)
  qed
  with raises show
    "(\<exists>e. merge_dfs_on_column order dataframes labels col = Inl e)
     \<and> (length dataframes \<le> length labels
          \<longrightarrow> merge_dfs_on_column order dataframes labels col = Inl (KeyError col))"
    by blast
qed

theorem merge_missing_field_raises_witness:
  "(\<exists>df\<in>set [kraken, no_price]. ''Weighted Price'' \<notin> fst ` set (df_columns df))
   \<and> length [kraken, no_price] \<le> length [''KRAKEN'', ''OTHER'']
   \<and> merge_dfs_on_column Insertion_order [kraken, no_price] [''KRAKEN'', ''OTHER'']
         ''Weighted Price''
       = Inl (KeyError ''Weighted Price'')"
proof -
  have h: "\<exists>df\<in>set [kraken, no_price]. ''Weighted Price'' \<notin> fst ` set (df_columns df)"
    by (simp add: no_price_def)
  have l: "length [kraken, no_price] \<le> length [''KRAKEN'', ''OTHER'']"
    by simp
  note t = merge_missing_field_raises [where dataframes = "[kraken, no_price]"
      and col = "''Weighted Price''" and order = Insertion_order
      and labels = "[''KRAKEN'', ''OTHER'']"]
  from mp [OF conjunct2 [OF mp [OF t h]] l] h l show ?thesis
    by (intro conjI)
qed

text \<open>
  C5 (merge completeness). Take frames whose columns have one cell per row, with pairwise
  distinct labels, one per frame. When \<open>merge_dfs_on_column\<close> returns a table, its rows are
  exactly the dates of the inputs taken together, and for a date that only the frame at
  position \<open>i\<close> has, the column of every other frame \<open>j\<close> has a row for that date and
  is unset (\<open>None\<close>, not zero) there. A table is returned whenever the field is a column of
  every frame and no frame repeats a date.
\<close>

theorem merge_rows_are_union_of_dates:
  "(merge_dfs_on_column order dataframes labels col = Inr t \<and> distinct labels
      \<and> length labels = length dataframes \<and> list_all wf_dataframe dataframes
    \<longrightarrow> set (df_index t) = (\<Union>df\<in>set dataframes. set (df_index df))
        \<and> (\<forall>i<length dataframes. \<forall>j<length dataframes. \<forall>d.
              j \<noteq> i \<and> d \<in> set (df_index (dataframes ! i))
              \<and> (\<forall>k<length dataframes. k \<noteq> i \<longrightarrow> d \<notin> set (df_index (dataframes ! k)))
              \<longrightarrow> (\<exists>s. getitem t (labels ! j) = Inr s \<and> d \<in> fst ` set s
                       \<and> (\<forall>v. (d, v) \<in> set s \<longrightarrow> v = None))))
   \<and> (length labels = length dataframes
      \<and> list_all (\<lambda>df. distinct (df_index df) \<and> col \<in> fst ` set (df_columns df)) dataframes
    \<longrightarrow> (\<exists>t. merge_dfs_on_column order dataframes labels col = Inr t))"
proof (intro conjI impI allI)
  assume h: "merge_dfs_on_column order dataframes labels col = Inr t \<and> distinct labels
      \<and> length labels = length dataframes \<and> list_all wf_dataframe dataframes"
  then show rows: "set (df_index t) = (\<Union>df\<in>set dataframes. set (df_index df))"
    by (intro merge_row_set [of order dataframes labels col]) simp_all
  fix i j d
  assume i: "i < length dataframes" and j: "j < length dataframes"
    and only: "j \<noteq> i \<and> d \<in> set (df_index (dataframes ! i))
      \<and> (\<forall>k<length dataframes. k \<noteq> i \<longrightarrow> d \<notin> set (df_index (dataframes ! k)))"
  from only i rows have "d \<in> set (df_index t)"
    by auto
  moreover from only j have "d \<notin> set (df_index (dataframes ! j))"
    by simp
  ultimately show "\<exists>s. getitem t (labels ! j) = Inr s \<and> d \<in> fst ` set s
      \<and> (\<forall>v. (d, v) \<in> set s \<longrightarrow> v = None)"
    using h j by (intro merge_absent_cells [of order dataframes labels col]) simp_all
next
  assume "length labels = length dataframes
      \<and> list_all (\<lambda>df. distinct (df_index df) \<and> col \<in> fst ` set (df_columns df)) dataframes"
  then show "\<exists>t. merge_dfs_on_column order dataframes labels col = Inr t"
    by (simp add: merge_succeeds)
qed

text \<open>
  Kraken has dates 1 and 2, Bitstamp 2 and 3: the merged table has rows 1, 2 and 3, and
  at date 1, which only Kraken has, the Bitstamp column is unset.
\<close>

theorem merge_rows_are_union_of_dates_witness:
  "(merge_dfs_on_column Insertion_order [kraken, bitstamp] [''KRAKEN'', ''BITSTAMP''] ''Weighted Price''
      = Inr \<lparr>df_index = [1, 2, 3],
             df_columns = [(''KRAKEN'', [Some 10, Some 20, None]),
                           (''BITSTAMP'', [None, Some 21, Some 31])]\<rparr>
    \<and> distinct [''KRAKEN'', ''BITSTAMP'']
    \<and> length [''KRAKEN'', ''BITSTAMP''] = length [kraken, bitstamp]
    \<and> list_all wf_dataframe [kraken, bitstamp])
   \<and> set [1, 2, 3] = (\<Union>df\<in>set [kraken, bitstamp]. set (df_index df))
   \<and> (\<exists>s. getitem \<lparr>df_index = [1, 2, 3],
                    df_columns = [(''KRAKEN'', [Some 10, Some (20::int), None]),
                                  (''BITSTAMP'', [None, Some 21, Some 31])]\<rparr> ''BITSTAMP'' = Inr s
          \<and> 1 \<in> fst ` set s \<and> (\<forall>v. (1, v) \<in> set s \<longrightarrow> v = None))
   \<and> (length [''KRAKEN'', ''BITSTAMP''] = length [kraken, bitstamp]
      \<and> list_all (\<lambda>df. distinct (df_index df) \<and> ''Weighted Price'' \<in> fst ` set (df_columns df))
           [kraken, bitstamp])
   \<and> (\<exists>t. merge_dfs_on_column Insertion_order [kraken, bitstamp] [''KRAKEN'', ''BITSTAMP''] ''Weighted Price'' = Inr t)"
proof -
  note t = merge_rows_are_union_of_dates [where order = Insertion_order
      and dataframes = "[kraken, bitstamp]" and labels = "[''KRAKEN'', ''BITSTAMP'']"
      and col = "''Weighted Price''" and t = "\<lparr>df_index = [1, 2, 3],
             df_columns = [(''KRAKEN'', [Some 10, Some 20, None]),
                           (''BITSTAMP'', [None, Some 21, Some 31])]\<rparr>"]
  have h1: "merge_dfs_on_column Insertion_order [kraken, bitstamp] [''KRAKEN'', ''BITSTAMP''] ''Weighted Price''
      = Inr \<lparr>df_index = [1, 2, 3],
             df_columns = [(''KRAKEN'', [Some 10, Some 20, None]),
                           (''BITSTAMP'', [None, Some 21, Some 31])]\<rparr>
    \<and> distinct [''KRAKEN'', ''BITSTAMP'']
    \<and> length [''KRAKEN'', ''BITSTAMP''] = length [kraken, bitstamp]
    \<and> list_all wf_dataframe [kraken, bitstamp]"
    using merge_kraken_bitstamp by (simp add: wf_dataframe_def kraken_def bitstamp_def)
  have h2: "length [''KRAKEN'', ''BITSTAMP''] = length [kraken, bitstamp]
      \<and> list_all (\<lambda>df. distinct (df_index df) \<and> ''Weighted Price'' \<in> fst ` set (df_columns df))
           [kraken, bitstamp]"
    by (simp add: kraken_def bitstamp_def)
  note c1 = mp [OF conjunct1 [OF t] h1]
  note rows = conjunct1 [OF c1]
  have only: "(1::nat) \<noteq> 0 \<and> (1::int) \<in> set (df_index ([kraken, bitstamp] ! 0))
      \<and> (\<forall>k<length [kraken, bitstamp]. k \<noteq> 0 \<longrightarrow> 1 \<notin> set (df_index ([kraken, bitstamp] ! k)))"
    by (simp add: kraken_def bitstamp_def less_Suc_eq)
  from conjunct2 [OF c1, rule_format, of 0 1 1] only have
    "\<exists>s. getitem \<lparr>df_index = [1, 2, 3],
                    df_columns = [(''KRAKEN'', [Some 10, Some (20::int), None]),
                                  (''BITSTAMP'', [None, Some 21, Some 31])]\<rparr>
             ([''KRAKEN'', ''BITSTAMP''] ! 1) = Inr s
          \<and> 1 \<in> fst ` set s \<and> (\<forall>v. (1, v) \<in> set s \<longrightarrow> v = None)"
    by simp
  then have cells: "\<exists>s. getitem \<lparr>df_index = [1, 2, 3],
                    df_columns = [(''KRAKEN'', [Some 10, Some (20::int), None]),
                                  (''BITSTAMP'', [None, Some 21, Some 31])]\<rparr> ''BITSTAMP'' = Inr s
          \<and> 1 \<in> fst ` set s \<and> (\<forall>v. (1, v) \<in> set s \<longrightarrow> v = None)"
    by simp
  from rows have rows': "set [1, 2, 3] = (\<Union>df\<in>set [kraken, bitstamp]. set (df_index df))"
    by simp
  note ex = mp [OF conjunct2 [OF t] h2]
  show ?thesis
    by (rule conjI [OF h1 conjI [OF rows' conjI [OF cells conjI [OF h2 ex]]]])
qed

section \<open>Properties of the conversion to US dollars\<close>

subsection \<open>Cells at dates the index series lacks\<close>

lemma cell_mul_None: "cell_mul mul x None = None"
  by (simp add: cell_mul_def split: option.splits)

lemma occurrences_absent: "d \<notin> fst ` set s \<Longrightarrow> occurrences s d = [None]"
proof -
  assume "d \<notin> fst ` set s"
  then have "filter (\<lambda>p. fst p = d) s = []"
    by (auto simp: filter_empty_conv)
  then show ?thesis by (simp add: occurrences_def)
qed

lemma zip_same_index:
  assumes "map fst a = map fst b" and "(p, q) \<in> set (zip a b)"
  shows "fst p = fst q"
proof -
  from assms(2) obtain n where n: "n < length a" "n < length b" "a ! n = p" "b ! n = q"
    by (auto simp: in_set_zip)
  from assms(1) n(1,2) have "map fst a ! n = map fst b ! n" by simp
  with n show ?thesis by simp
qed

lemma series_mul_absent:
  assumes "(d, v) \<in> set (series_mul mul a b)" and "d \<notin> fst ` set b"
  shows "v = None"
proof (cases "map fst a = map fst b")
  case True
  with assms(1) obtain p q where pq: "(p, q) \<in> set (zip a b)" and "fst p = d"
    by (auto simp: series_mul_def)
  with zip_same_index [OF True pq] have "fst q = d" by simp
  moreover from pq have "q \<in> set b" by (rule set_zip_rightD)
  ultimately have "d \<in> fst ` set b" by force
  with assms(2) show ?thesis by simp
next
  case False
  with assms(1) obtain x y where "v = cell_mul mul x y" "y \<in> set (occurrences b d)"
    by (auto simp: series_mul_def)
  with assms(2) show ?thesis
    by (simp add: occurrences_absent cell_mul_None)
qed

lemma reindex_keeps_unset:
  assumes "reindex s target = Inr s'" and "\<forall>v. (d, v) \<in> set s \<longrightarrow> v = None"
    and "(d, v) \<in> set s'"
  shows "v = None"
proof (cases "map fst s = target")
  case True
  with assms(1) have "s' = s" by (simp add: reindex_def)
  with assms(2,3) show ?thesis by simp
next
  case False
  with assms(1) have
    "s' = map (\<lambda>d. (d, case map_of s d of None \<Rightarrow> None | Some c \<Rightarrow> c)) target"
    by (simp add: reindex_def split: if_splits)
  with assms(3) have v: "v = (case map_of s d of None \<Rightarrow> None | Some c \<Rightarrow> c)"
    by auto
  show ?thesis
  proof (cases "map_of s d")
    case None
    with v show ?thesis by simp
  next
    case (Some c)
    then have "(d, c) \<in> set s" by (rule map_of_SomeD)
    with assms(2) Some v show ?thesis by simp
  qed
qed

lemma setitem_column:
  assumes "setitem df col s = Inr df'"
  shows "\<exists>s'. getitem df' col = Inr s' \<and> map fst s' = df_index df'
           \<and> (\<forall>d. (\<forall>v. (d, v) \<in> set s \<longrightarrow> v = None) \<longrightarrow> (\<forall>v. (d, v) \<in> set s' \<longrightarrow> v = None))"
proof (cases "df_index df = [] \<and> s \<noteq> []")
  case True
  with assms have df': "df' = \<lparr>df_index = map fst s,
      df_columns = dict_set (map (\<lambda>c. (fst c, replicate (length s) None)) (df_columns df))
                     col (map snd s)\<rparr>"
    by (simp add: setitem_def)
  then have "getitem df' col = Inr s"
    by (simp add: getitem_def map_of_dict_set zip_map_fst_snd)
  with df' show ?thesis by auto
next
  case False
  with assms obtain s' where r: "reindex s (df_index df) = Inr s'"
    and df': "df' = df\<lparr>df_columns := dict_set (df_columns df) col (map snd s')\<rparr>"
    by (auto simp: setitem_def split: sum.splits)
  from reindex_index [OF r] have i: "map fst s' = df_index df" .
  then have "zip (df_index df) (map snd s') = s'"
    by (metis zip_map_fst_snd)
  with df' have "getitem df' col = Inr s'"
    by (simp add: getitem_def map_of_dict_set)
  moreover from df' i have "map fst s' = df_index df'" by simp
  moreover have "\<forall>d. (\<forall>v. (d, v) \<in> set s \<longrightarrow> v = None) \<longrightarrow> (\<forall>v. (d, v) \<in> set s' \<longrightarrow> v = None)"
    using reindex_keeps_unset [OF r] by blast
  ultimately show ?thesis by blast
qed

lemma price_usd_step_unset:
  assumes "price_usd_step mul btc df = Inr df'"
  shows "\<exists>s. getitem df' ''price_usd'' = Inr s \<and> map fst s = df_index df'
           \<and> (\<forall>d v. (d, v) \<in> set s \<and> d \<notin> set (df_index btc) \<longrightarrow> v = None)"
proof -
  from assms obtain weighted avg where
    avg: "getitem btc ''avg_btc_price_usd'' = Inr avg"
    and set: "setitem df ''price_usd'' (series_mul mul weighted avg) = Inr df'"
    by (auto simp: price_usd_step_def split: sum.splits)
  from setitem_column [OF set] obtain s where
    s: "getitem df' ''price_usd'' = Inr s" "map fst s = df_index df'"
    and keep: "\<And>d. (\<forall>v. (d, v) \<in> set (series_mul mul weighted avg) \<longrightarrow> v = None)
             \<Longrightarrow> (\<forall>v. (d, v) \<in> set s \<longrightarrow> v = None)"
    by blast
  have "v = None" if "(d, v) \<in> set s" "d \<notin> set (df_index btc)" for d v
  proof -
    from that(2) getitem_index_subset(1) [OF avg] have "d \<notin> fst ` set avg"
      by blast
    then have "\<forall>v. (d, v) \<in> set (series_mul mul weighted avg) \<longrightarrow> v = None"
      using series_mul_absent by blast
    from keep [OF this] that(1) show ?thesis by simp
  qed
  with s show ?thesis by blast
qed

subsection \<open>The loop over the dictionary\<close>

text \<open>
  The loop keeps the keys of the dictionary, and once it has run without an exception
  every frame under a key it visited has the property the loop body establishes.
\<close>

lemma price_usd_loop_keys:
  "price_usd_loop mul btc keys data = (r, data') \<Longrightarrow> map fst data' = map fst data"
proof (induction keys arbitrary: data)
  case Nil
  then show ?case by simp
next
  case (Cons a keys)
  show ?case
  proof (cases "map_of data a")
    case None
    with Cons.prems show ?thesis by simp
  next
    case (Some df)
    then have a: "a \<in> set (map fst data)"
      by (auto dest: map_of_SomeD intro: rev_image_eqI)
    show ?thesis
    proof (cases "price_usd_step mul btc df")
      case (Inl e)
      with Some Cons.prems show ?thesis by simp
    next
      case (Inr df')
      with Some Cons.prems have
        "price_usd_loop mul btc keys (dict_set data a df') = (r, data')"
        by simp
      from Cons.IH [OF this] a show ?thesis
        by (simp add: keys_dict_set)
    qed
  qed
qed

lemma price_usd_loop_invariant:
  assumes "price_usd_loop mul btc keys data = (None, data')"
    and "\<forall>k\<in>visited. \<forall>df. map_of data k = Some df \<longrightarrow> P df"
    and "\<And>df df'. price_usd_step mul btc df = Inr df' \<Longrightarrow> P df'"
  shows "\<forall>k\<in>visited \<union> set keys. \<forall>df. map_of data' k = Some df \<longrightarrow> P df"
  using assms(1,2)
proof (induction keys arbitrary: data visited)
  case Nil
  then show ?case by simp
next
  case (Cons a keys)
  from Cons.prems(1) obtain df df' where
    df: "map_of data a = Some df" and step: "price_usd_step mul btc df = Inr df'"
    and rest: "price_usd_loop mul btc keys (dict_set data a df') = (None, data')"
    by (auto split: option.splits sum.splits)
  have "\<forall>k\<in>insert a visited. \<forall>df. map_of (dict_set data a df') k = Some df \<longrightarrow> P df"
    using Cons.prems(2) assms(3) [OF step] by (simp add: map_of_dict_set)
  from Cons.IH [OF rest this] show ?case by simp
qed

subsection \<open>When the loop completes\<close>

text \<open>With unique dates on both sides the product of two series has unique dates.\<close>

lemma filter_key_distinct:
  "distinct (map fst s) \<Longrightarrow> length (filter (\<lambda>p. fst p = d) s) \<le> 1"
proof (induction s)
  case Nil
  show ?case by simp
next
  case (Cons p s)
  show ?case
  proof (cases "fst p = d")
    case True
    with Cons.prems have "d \<notin> fst ` set s" by auto
    then have "filter (\<lambda>p. fst p = d) s = []"
      by (auto simp: filter_empty_conv)
    with True show ?thesis by simp
  next
    case False
    with Cons show ?thesis by simp
  qed
qed

lemma occurrences_single:
  assumes "distinct (map fst s)"
  shows "\<exists>x. occurrences s d = [x]"
proof (cases "filter (\<lambda>p. fst p = d) s")
  case Nil
  then show ?thesis by (simp add: occurrences_def)
next
  case (Cons p ps)
  with filter_key_distinct [OF assms, of d] have "ps = []" by simp
  with Cons show ?thesis by (simp add: occurrences_def)
qed

lemma keys_of_singletons:
  "\<forall>d. \<exists>v. f d = [(d, v)] \<Longrightarrow> map fst (concat (map f ds)) = ds"
proof (induction ds)
  case Nil
  show ?case by simp
next
  case (Cons d ds)
  from Cons.prems obtain v where "f d = [(d, v)]" by blast
  with Cons show ?case by simp
qed

lemma series_mul_distinct:
  assumes "distinct (map fst a)" and "distinct (map fst b)"
  shows "distinct (map fst (series_mul mul a b))"
proof (cases "map fst a = map fst b")
  case True
  then have "length a = length b"
    by (metis length_map)
  then have "map fst (map (\<lambda>(p, q). (fst p, cell_mul mul (snd p) (snd q))) (zip a b)) = map fst a"
    by (induction a b rule: list_induct2) simp_all
  with True assms(1) show ?thesis
    by (simp add: series_mul_def)
next
  case False
  have "\<forall>d. \<exists>v. concat (map (\<lambda>x. map (\<lambda>y. (d, cell_mul mul x y)) (occurrences b d))
                              (occurrences a d)) = [(d, v)]"
  proof
    fix d
    from occurrences_single [OF assms(1), of d] obtain x where "occurrences a d = [x]" by blast
    moreover from occurrences_single [OF assms(2), of d] obtain y where "occurrences b d = [y]"
      by blast
    ultimately show "\<exists>v. concat (map (\<lambda>x. map (\<lambda>y. (d, cell_mul mul x y)) (occurrences b d))
                              (occurrences a d)) = [(d, v)]"
      by simp
  qed
  from keys_of_singletons [OF this] False show ?thesis
    by (simp add: series_mul_def)
qed

lemma setitem_succeeds:
  assumes "distinct (map fst s)" and "distinct (df_index df)"
  shows "\<exists>df'. setitem df col s = Inr df' \<and> distinct (df_index df')
           \<and> fst ` set (df_columns df) \<subseteq> fst ` set (df_columns df')"
proof (cases "df_index df = [] \<and> s \<noteq> []")
  case True
  have "fst ` set (df_columns df)
      \<subseteq> set (map fst (dict_set (map (\<lambda>c. (fst c, replicate (length s) None)) (df_columns df))
                          col (map snd s)))"
    by (auto simp: keys_dict_set comp_def)
  with True assms(1) show ?thesis
    by (simp add: setitem_def)
next
  case False
  from reindex_distinct [OF assms(1)] obtain s' where "reindex s (df_index df) = Inr s'"
    by blast
  moreover have "fst ` set (df_columns df) \<subseteq> set (map fst (dict_set (df_columns df) col (map snd s')))"
    by (auto simp: keys_dict_set)
  moreover from False have "setitem df col s
      = (case reindex s (df_index df) of Inl e \<Rightarrow> Inl e
         | Inr s' \<Rightarrow> Inr (df\<lparr>df_columns := dict_set (df_columns df) col (map snd s')\<rparr>))"
    unfolding setitem_def by (rule if_not_P)
  ultimately show ?thesis using assms(2)
    by simp
qed

lemma price_usd_step_succeeds:
  assumes "''weightedAverage'' \<in> fst ` set (df_columns df)" and "distinct (df_index df)"
    and "''avg_btc_price_usd'' \<in> fst ` set (df_columns btc)" and "distinct (df_index btc)"
  shows "\<exists>df'. price_usd_step mul btc df = Inr df'
           \<and> ''weightedAverage'' \<in> fst ` set (df_columns df') \<and> distinct (df_index df')"
proof -
  from assms(1) obtain ws where w: "map_of (df_columns df) ''weightedAverage'' = Some ws"
    by (cases "map_of (df_columns df) ''weightedAverage''") (auto simp: map_of_eq_None_iff)
  from assms(3) obtain vs where v: "map_of (df_columns btc) ''avg_btc_price_usd'' = Some vs"
    by (cases "map_of (df_columns btc) ''avg_btc_price_usd''") (auto simp: map_of_eq_None_iff)
  from w have gw: "getitem df ''weightedAverage'' = Inr (zip (df_index df) ws)"
    by (simp add: getitem_def)
  from v have gv: "getitem btc ''avg_btc_price_usd'' = Inr (zip (df_index btc) vs)"
    by (simp add: getitem_def)
  have "distinct (map fst (series_mul mul (zip (df_index df) ws) (zip (df_index btc) vs)))"
    using getitem_index_subset(2) [OF gw assms(2)] getitem_index_subset(2) [OF gv assms(4)]
    by (rule series_mul_distinct)
  from setitem_succeeds [OF this assms(2), of "''price_usd''"] assms(1) gw gv show ?thesis
    by (auto simp: price_usd_step_def)
qed

lemma price_usd_loop_succeeds:
  assumes "''avg_btc_price_usd'' \<in> fst ` set (df_columns btc)" and "distinct (df_index btc)"
    and "\<forall>p\<in>set data. ''weightedAverage'' \<in> fst ` set (df_columns (snd p))
                          \<and> distinct (df_index (snd p))"
    and "set keys \<subseteq> fst ` set data"
  shows "fst (price_usd_loop mul btc keys data) = None"
  using assms(3,4)
proof (induction keys arbitrary: data)
  case Nil
  show ?case by simp
next
  case (Cons a keys)
  from Cons.prems(2) obtain df where df: "map_of data a = Some df"
    by (cases "map_of data a") (auto simp: map_of_eq_None_iff)
  then have "(a, df) \<in> set data" by (rule map_of_SomeD)
  with Cons.prems(1) have pre: "''weightedAverage'' \<in> fst ` set (df_columns df)" "distinct (df_index df)"
    by force+
  from price_usd_step_succeeds [OF pre assms(1,2)] obtain df' where
    step: "price_usd_step mul btc df = Inr df'"
    and post: "''weightedAverage'' \<in> fst ` set (df_columns df')" "distinct (df_index df')"
    by blast
  have sub: "set (dict_set data a df') \<subseteq> insert (a, df') (set data)"
    by (induction data) auto
  have "\<forall>p\<in>set (dict_set data a df'). ''weightedAverage'' \<in> fst ` set (df_columns (snd p))
                          \<and> distinct (df_index (snd p))"
  proof
    fix p
    assume "p \<in> set (dict_set data a df')"
    with sub have "p = (a, df') \<or> p \<in> set data" by auto
    then show "''weightedAverage'' \<in> fst ` set (df_columns (snd p)) \<and> distinct (df_index (snd p))"
    proof
      assume "p = (a, df')"
      with post show ?thesis by simp
    next
      assume "p \<in> set data"
      with Cons.prems(1) show ?thesis by blast
    qed
  qed
  moreover have "set keys \<subseteq> fst ` set (dict_set data a df')"
    using Cons.prems(2) keys_dict_set [of data a df'] by (metis insert_subset list.set(2) list.set_map set_append subset_trans sup_ge1)
  ultimately have "fst (price_usd_loop mul btc keys (dict_set data a df')) = None"
    by (rule Cons.IH)
  with df step show ?case by simp
qed

subsection \<open>The rows of a converted frame\<close>

text \<open>
  Assigning the column keeps the rows of a frame that has rows, and so does every later
  run of the loop body on the same frame.
\<close>

lemma setitem_rows:
  assumes "setitem df col s = Inr df'" and "df_index df \<noteq> []"
  shows "df_index df' = df_index df"
  using assms by (auto simp: setitem_def split: sum.splits)

lemma price_usd_step_rows:
  assumes "price_usd_step mul btc df = Inr df'" and "df_index df \<noteq> []"
  shows "df_index df' = df_index df"
proof -
  from assms(1) obtain s where "setitem df ''price_usd'' s = Inr df'"
    by (auto simp: price_usd_step_def split: sum.splits)
  from setitem_rows [OF this assms(2)] show ?thesis .
qed

lemma price_usd_loop_rows:
  assumes "price_usd_loop mul btc keys data = (None, data')"
    and "\<forall>k df. map_of start k = Some df \<longrightarrow>
           (\<exists>df'. map_of data k = Some df' \<and> (df_index df \<noteq> [] \<longrightarrow> df_index df' = df_index df))"
  shows "\<forall>k df. map_of start k = Some df \<longrightarrow>
           (\<exists>df'. map_of data' k = Some df' \<and> (df_index df \<noteq> [] \<longrightarrow> df_index df' = df_index df))"
  using assms
proof (induction keys arbitrary: data)
  case Nil
  then show ?case by simp
next
  case (Cons a keys)
  from Cons.prems(1) obtain dfa dfa' where
    dfa: "map_of data a = Some dfa" and step: "price_usd_step mul btc dfa = Inr dfa'"
    and rest: "price_usd_loop mul btc keys (dict_set data a dfa') = (None, data')"
    by (auto split: option.splits sum.splits)
  have "\<forall>k df. map_of start k = Some df \<longrightarrow>
      (\<exists>df'. map_of (dict_set data a dfa') k = Some df'
             \<and> (df_index df \<noteq> [] \<longrightarrow> df_index df' = df_index df))"
  proof (intro allI impI)
    fix k df
    assume "map_of start k = Some df"
    with Cons.prems(2) obtain df' where
      df': "map_of data k = Some df'" and rows: "df_index df \<noteq> [] \<longrightarrow> df_index df' = df_index df"
      by blast
    show "\<exists>df'. map_of (dict_set data a dfa') k = Some df'
             \<and> (df_index df \<noteq> [] \<longrightarrow> df_index df' = df_index df)"
    proof (cases "k = a")
      case True
      with df' dfa have same: "df' = dfa" by simp
      have "df_index df \<noteq> [] \<longrightarrow> df_index dfa' = df_index df"
      proof
        assume ne: "df_index df \<noteq> []"
        with rows same have "df_index dfa = df_index df" by simp
        with ne price_usd_step_rows [OF step] show "df_index dfa' = df_index df" by simp
      qed
      with True show ?thesis by (simp add: map_of_dict_set)
    next
      case False
      with df' rows show ?thesis by (simp add: map_of_dict_set)
    qed
  qed
  from Cons.IH [OF rest this] show ?case .
qed

text \<open>The conversion of the sample altcoin, evaluated.\<close>

lemma price_usd_eth:
  "price_usd_all int_mul btc_usd [(''ETH'', eth_btc)]
   = (None, [(''ETH'', \<lparr>df_index = [1, 2, 4],
                        df_columns = [(''weightedAverage'', [Some 2, Some 3, Some 5]),
                                      (''price_usd'', [Some 200, None, None])]\<rparr>)])"
  by code_simp

text \<open>
  C8 (dates absent from the index series). Take an altcoin frame of the dictionary and let
  the conversion loop run without an exception. The dictionary keeps its keys, and the
  frame now under the altcoin's key has the rows of the original frame, in their order,
  when that frame had any. It has a \<^verbatim>\<open>price_usd\<close> column with one cell per row, and at every
  row of the original frame whose date is not a date of the bitcoin price table that cell
  is unset: \<open>None\<close>, not zero; the row is kept, not dropped. A date missing from the bitcoin
  table raises nothing: the loop runs without an exception whenever the bitcoin table has
  its average column, every altcoin frame has its \<^verbatim>\<open>weightedAverage\<close> column, and no table
  repeats a date.
\<close>

theorem price_usd_unset_without_index_date:
  "(price_usd_all mul btc_usd_datasets altcoin_data = (None, altcoin_data')
      \<and> map_of altcoin_data altcoin = Some df
    \<longrightarrow> map fst altcoin_data' = map fst altcoin_data
        \<and> (\<exists>df' s. map_of altcoin_data' altcoin = Some df'
              \<and> (df_index df \<noteq> [] \<longrightarrow> df_index df' = df_index df)
              \<and> getitem df' ''price_usd'' = Inr s \<and> map fst s = df_index df'
              \<and> (\<forall>i<length (df_index df).
                    df_index df ! i \<notin> set (df_index btc_usd_datasets)
                    \<longrightarrow> s ! i = (df_index df ! i, None))
              \<and> (\<forall>d v. (d, v) \<in> set s \<and> d \<notin> set (df_index btc_usd_datasets) \<longrightarrow> v = None)))
   \<and> (''avg_btc_price_usd'' \<in> fst ` set (df_columns btc_usd_datasets)
      \<and> distinct (df_index btc_usd_datasets)
      \<and> list_all (\<lambda>p. ''weightedAverage'' \<in> fst ` set (df_columns (snd p))
                        \<and> distinct (df_index (snd p))) altcoin_data
    \<longrightarrow> fst (price_usd_all mul btc_usd_datasets altcoin_data) = None)"
proof (intro conjI impI)
  assume h: "price_usd_all mul btc_usd_datasets altcoin_data = (None, altcoin_data')
     \<and> map_of altcoin_data altcoin = Some df"
  then have loop: "price_usd_loop mul btc_usd_datasets (map fst altcoin_data) altcoin_data
      = (None, altcoin_data')"
    by (simp add: price_usd_all_def)
  from price_usd_loop_keys [OF loop] show keys: "map fst altcoin_data' = map fst altcoin_data" .
  have "\<forall>k df. map_of altcoin_data k = Some df \<longrightarrow>
      (\<exists>df'. map_of altcoin_data' k = Some df' \<and> (df_index df \<noteq> [] \<longrightarrow> df_index df' = df_index df))"
    by (rule price_usd_loop_rows [OF loop]) simp
  with h obtain df' where
    df': "map_of altcoin_data' altcoin = Some df'"
    and rows: "df_index df \<noteq> [] \<longrightarrow> df_index df' = df_index df"
    by blast
  from h have key: "altcoin \<in> {} \<union> set (map fst altcoin_data)"
    by (auto dest: map_of_SomeD intro: rev_image_eqI)
  have "\<forall>k\<in>{} \<union> set (map fst altcoin_data). \<forall>df. map_of altcoin_data' k = Some df \<longrightarrow>
      (\<exists>s. getitem df ''price_usd'' = Inr s \<and> map fst s = df_index df
          \<and> (\<forall>d v. (d, v) \<in> set s \<and> d \<notin> set (df_index btc_usd_datasets) \<longrightarrow> v = None))"
  proof (rule price_usd_loop_invariant [where visited = "{}" and P = "\<lambda>df.
      \<exists>s. getitem df ''price_usd'' = Inr s \<and> map fst s = df_index df
          \<and> (\<forall>d v. (d, v) \<in> set s \<and> d \<notin> set (df_index btc_usd_datasets) \<longrightarrow> v = None)", OF loop])
    show "\<forall>k\<in>{}. \<forall>df. map_of altcoin_data k = Some df \<longrightarrow>
      (\<exists>s. getitem df ''price_usd'' = Inr s \<and> map fst s = df_index df
          \<and> (\<forall>d v. (d, v) \<in> set s \<and> d \<notin> set (df_index btc_usd_datasets) \<longrightarrow> v = None))"
      by simp
  next
    fix df0 df1 :: "'a dataframe"
    assume "price_usd_step mul btc_usd_datasets df0 = Inr df1"
    then show "\<exists>s. getitem df1 ''price_usd'' = Inr s \<and> map fst s = df_index df1
          \<and> (\<forall>d v. (d, v) \<in> set s \<and> d \<notin> set (df_index btc_usd_datasets) \<longrightarrow> v = None)"
      by (rule price_usd_step_unset)
  qed
  with key df' obtain s where
    s: "getitem df' ''price_usd'' = Inr s" and idx: "map fst s = df_index df'"
    and unset: "\<forall>d v. (d, v) \<in> set s \<and> d \<notin> set (df_index btc_usd_datasets) \<longrightarrow> v = None"
    by blast
  have at_row: "s ! i = (df_index df ! i, None)"
    if i: "i < length (df_index df)" and absent: "df_index df ! i \<notin> set (df_index btc_usd_datasets)"
    for i
  proof -
    from i have "df_index df \<noteq> []" by auto
    with rows idx have same: "map fst s = df_index df" by simp
    then have len: "length s = length (df_index df)"
      by (metis length_map)
    from same i len have date: "fst (s ! i) = df_index df ! i"
      by (metis nth_map)
    from i len have "s ! i \<in> set s" by simp
    then have "(df_index df ! i, snd (s ! i)) \<in> set s"
      using date by (metis prod.collapse)
    with unset absent have "snd (s ! i) = None" by blast
    with date show ?thesis by (simp add: prod_eq_iff)
  qed
  from df' rows s idx at_row unset show
    "\<exists>df' s. map_of altcoin_data' altcoin = Some df'
              \<and> (df_index df \<noteq> [] \<longrightarrow> df_index df' = df_index df)
              \<and> getitem df' ''price_usd'' = Inr s \<and> map fst s = df_index df'
              \<and> (\<forall>i<length (df_index df).
                    df_index df ! i \<notin> set (df_index btc_usd_datasets)
                    \<longrightarrow> s ! i = (df_index df ! i, None))
              \<and> (\<forall>d v. (d, v) \<in> set s \<and> d \<notin> set (df_index btc_usd_datasets) \<longrightarrow> v = None)"
    by blast
next
  assume h: "''avg_btc_price_usd'' \<in> fst ` set (df_columns btc_usd_datasets)
      \<and> distinct (df_index btc_usd_datasets)
      \<and> list_all (\<lambda>p. ''weightedAverage'' \<in> fst ` set (df_columns (snd p))
                        \<and> distinct (df_index (snd p))) altcoin_data"
  then have "\<forall>p\<in>set altcoin_data. ''weightedAverage'' \<in> fst ` set (df_columns (snd p))
                          \<and> distinct (df_index (snd p))"
    by (simp add: list_all_iff)
  moreover have "set (map fst altcoin_data) \<subseteq> fst ` set altcoin_data"
    by simp
  ultimately show "fst (price_usd_all mul btc_usd_datasets altcoin_data) = None"
    unfolding price_usd_all_def using h by (intro price_usd_loop_succeeds) simp_all
qed

text \<open>
  The altcoin has dates 1, 2 and 4, the bitcoin table 1, 2 and 3. The converted frame
  still has the rows 1, 2 and 4, and its third row, the one of date 4, has an unset price.
\<close>

theorem price_usd_unset_without_index_date_witness:
  "(price_usd_all int_mul btc_usd [(''ETH'', eth_btc)]
      = (None, [(''ETH'', \<lparr>df_index = [1, 2, 4],
                        df_columns = [(''weightedAverage'', [Some 2, Some 3, Some 5]),
                                      (''price_usd'', [Some 200, None, None])]\<rparr>)])
    \<and> map_of [(''ETH'', eth_btc)] ''ETH'' = Some eth_btc)
   \<and> (\<exists>df' s. map_of [(''ETH'', \<lparr>df_index = [1, 2, 4],
                        df_columns = [(''weightedAverage'', [Some 2, Some 3, Some 5]),
                                      (''price_usd'', [Some (200::int), None, None])]\<rparr>)] ''ETH''
                 = Some df'
          \<and> df_index eth_btc \<noteq> [] \<and> df_index df' = df_index eth_btc
          \<and> getitem df' ''price_usd'' = Inr s
          \<and> (2::nat) < length (df_index eth_btc) \<and> df_index eth_btc ! 2 = 4
          \<and> 4 \<notin> set (df_index btc_usd)
          \<and> s ! 2 = (4, None))
   \<and> (''avg_btc_price_usd'' \<in> fst ` set (df_columns btc_usd)
      \<and> distinct (df_index btc_usd)
      \<and> list_all (\<lambda>p. ''weightedAverage'' \<in> fst ` set (df_columns (snd p))
                        \<and> distinct (df_index (snd p))) [(''ETH'', eth_btc)])
   \<and> fst (price_usd_all int_mul btc_usd [(''ETH'', eth_btc)]) = None"
proof -
  note t = price_usd_unset_without_index_date [where mul = int_mul
      and btc_usd_datasets = btc_usd and altcoin_data = "[(''ETH'', eth_btc)]"
      and altcoin_data' = "[(''ETH'', \<lparr>df_index = [1, 2, 4],
                        df_columns = [(''weightedAverage'', [Some 2, Some 3, Some 5]),
                                      (''price_usd'', [Some 200, None, None])]\<rparr>)]"
      and altcoin = "''ETH''" and df = eth_btc]
  have h: "price_usd_all int_mul btc_usd [(''ETH'', eth_btc)]
      = (None, [(''ETH'', \<lparr>df_index = [1, 2, 4],
                        df_columns = [(''weightedAverage'', [Some 2, Some 3, Some 5]),
                                      (''price_usd'', [Some 200, None, None])]\<rparr>)])
    \<and> map_of [(''ETH'', eth_btc)] ''ETH'' = Some eth_btc"
    using price_usd_eth by simp
  have h2: "''avg_btc_price_usd'' \<in> fst ` set (df_columns btc_usd)
      \<and> distinct (df_index btc_usd)
      \<and> list_all (\<lambda>p. ''weightedAverage'' \<in> fst ` set (df_columns (snd p))
                        \<and> distinct (df_index (snd p))) [(''ETH'', eth_btc)]"
    by (simp add: btc_usd_def eth_btc_def)
  have rows: "df_index eth_btc \<noteq> []" "(2::nat) < length (df_index eth_btc)"
    "df_index eth_btc ! 2 = 4" "4 \<notin> set (df_index btc_usd)"
    by (simp_all add: eth_btc_def btc_usd_def)
  from conjunct2 [OF mp [OF conjunct1 [OF t] h]] obtain df' s where
    out: "map_of [(''ETH'', \<lparr>df_index = [1, 2, 4],
                        df_columns = [(''weightedAverage'', [Some 2, Some 3, Some 5]),
                                      (''price_usd'', [Some (200::int), None, None])]\<rparr>)] ''ETH''
                 = Some df'"
    and keep: "df_index eth_btc \<noteq> [] \<longrightarrow> df_index df' = df_index eth_btc"
    and col: "getitem df' ''price_usd'' = Inr s"
    and cell: "\<forall>i<length (df_index eth_btc).
                    df_index eth_btc ! i \<notin> set (df_index btc_usd)
                    \<longrightarrow> s ! i = (df_index eth_btc ! i, None)"
    by blast
  from keep rows(1) have same: "df_index df' = df_index eth_btc" by simp
  from cell [rule_format, of 2] rows have "s ! 2 = (4, None)" by simp
  with out rows same col have ex:
    "\<exists>df' s. map_of [(''ETH'', \<lparr>df_index = [1, 2, 4],
                        df_columns = [(''weightedAverage'', [Some 2, Some 3, Some 5]),
                                      (''price_usd'', [Some (200::int), None, None])]\<rparr>)] ''ETH''
                 = Some df'
          \<and> df_index eth_btc \<noteq> [] \<and> df_index df' = df_index eth_btc
          \<and> getitem df' ''price_usd'' = Inr s
          \<and> (2::nat) < length (df_index eth_btc) \<and> df_index eth_btc ! 2 = 4
          \<and> 4 \<notin> set (df_index btc_usd)
          \<and> s ! 2 = (4, None)"
    by blast
  show ?thesis
    by (rule conjI [OF h conjI [OF ex conjI [OF h2 mp [OF conjunct2 [OF t] h2]]]])
qed

end
